theory Spec2Isabelle
  imports Main "HOL-Library.Char_ord" "HOL-Library.List_Lexorder"
    "HOL-Library.Product_Lexorder" "HOL-Library.Multiset"
begin

section \<open>Python primitives used by the bracketing encoder\<close>

text \<open>
  Exceptions are values. The only exceptions the modelled code can raise are Python's own
  \<^verbatim>\<open>IndexError\<close> (list index out of range, \<^verbatim>\<open>pop\<close> from an empty list) and
  \<^verbatim>\<open>TypeError\<close> (comparing an unset head with an integer).
\<close>

datatype error = IndexError | TypeError

text \<open>The backslash character of the governor marker of left arcs.\<close>

abbreviation bslash :: char where
  "bslash \<equiv> CHR 0x5C"

text \<open>\<^verbatim>\<open>D_NONE_LABEL\<close> of \<^verbatim>\<open>codelin/utils/constants.py\<close>.\<close>

definition D_NONE_LABEL :: string where
  "D_NONE_LABEL = ''-NONE-''"

text \<open>
  Python list indexing \<^verbatim>\<open>xs[i]\<close> for a list of length \<open>n\<close>: a negative index counts
  from the end, anything outside \<open>-n..n-1\<close> raises \<^verbatim>\<open>IndexError\<close>.
\<close>

definition py_index :: "nat \<Rightarrow> int \<Rightarrow> error + nat" where
  "py_index n i =
     (if 0 \<le> i \<and> i < int n then Inr (nat i)
      else if - int n \<le> i \<and> i < 0 then Inr (nat (int n + i))
      else Inl IndexError)"

text \<open>Python's substring test \<^verbatim>\<open>sub in s\<close> on strings.\<close>

fun str_in :: "string \<Rightarrow> string \<Rightarrow> bool" where
  "str_in sub [] = (sub = [])"
| "str_in sub (c # cs) = (take (length sub) (c # cs) = sub \<or> str_in sub cs)"

text \<open>A \<^verbatim>\<open>for\<close> loop whose body may raise: the first exception ends the loop.\<close>

fun for_each :: "('s \<Rightarrow> 'a \<Rightarrow> error + 's) \<Rightarrow> 'a list \<Rightarrow> 's \<Rightarrow> error + 's" where
  "for_each f [] s = Inr s"
| "for_each f (x # xs) s = (case f s x of Inl e \<Rightarrow> Inl e | Inr s' \<Rightarrow> for_each f xs s')"

section \<open>Data model\<close>

text \<open>
  A label is the pair of the bracket payload \<open>xi\<close> and the relation \<open>li\<close>; a row of a
  linearized tree is what \<^verbatim>\<open>iterrows\<close> yields: word, postag, features and label.
\<close>

record D_Label =
  xi :: string
  li :: string

record row =
  word :: string
  postag :: string
  features :: "(string \<times> string) list"
  label :: D_Label

type_synonym LinearizedTree = "row list"

text \<open>
  Modelled from the spec: the node and tree classes (\<^verbatim>\<open>D_Node\<close>, \<^verbatim>\<open>D_Tree\<close> of
  \<^verbatim>\<open>codelin/models/deps_tree.py\<close>) are not part of the sources at hand. A node has an
  id, a head (unset before decoding assigns one), a relation, a word form, a tag and
  features; a tree is the sequence of its nodes, the node with id \<open>i\<close> at position \<open>i\<close>.
\<close>

record D_Node =
  nid :: nat
  head :: "nat option"
  relation :: string
  form :: string
  upos :: string
  feats :: "(string \<times> string) list"

type_synonym D_Tree = "D_Node list"

text \<open>
  Modelled from the spec: \<^verbatim>\<open>D_Tree.empty_tree(n)\<close>, an empty tree of fixed size \<open>n\<close> with
  all heads unset, and the mutators \<^verbatim>\<open>update_word\<close>, \<^verbatim>\<open>update_upos\<close>,
  \<^verbatim>\<open>update_relation\<close>, \<^verbatim>\<open>update_head\<close>, which overwrite one field of the node at
  the given position.
\<close>

definition empty_node :: "nat \<Rightarrow> D_Node" where
  "empty_node i = \<lparr>nid = i, head = None, relation = [], form = [], upos = [], feats = []\<rparr>"

definition empty_tree :: "nat \<Rightarrow> D_Tree" where
  "empty_tree n = map empty_node [0..<n]"

definition update_word :: "D_Tree \<Rightarrow> nat \<Rightarrow> string \<Rightarrow> D_Tree" where
  "update_word t i w = t[i := (t ! i)\<lparr>form := w\<rparr>]"

definition update_upos :: "D_Tree \<Rightarrow> nat \<Rightarrow> string \<Rightarrow> D_Tree" where
  "update_upos t i p = t[i := (t ! i)\<lparr>upos := p\<rparr>]"

definition update_relation :: "D_Tree \<Rightarrow> nat \<Rightarrow> string \<Rightarrow> D_Tree" where
  "update_relation t i r = t[i := (t ! i)\<lparr>relation := r\<rparr>]"

definition update_head :: "D_Tree \<Rightarrow> nat \<Rightarrow> nat \<Rightarrow> D_Tree" where
  "update_head t i h = t[i := (t ! i)\<lparr>head := Some h\<rparr>]"

text \<open>
  Modelled from the spec: \<^verbatim>\<open>LinearizedTree.iterrows(dir)\<close> produces the rows forward
  (\<^verbatim>\<open>'l2r'\<close>) or backward, without changing the stored sequence.
\<close>

datatype direction = L2R | R2L

definition iterrows :: "direction \<Rightarrow> 'a list \<Rightarrow> 'a list" where
  "iterrows dir rows = (if dir = L2R then rows else rev rows)"

section \<open>Bracket token merge\<close>

text \<open>
  One iteration of the loop of \<^verbatim>\<open>_merge_brackets\<close> at index \<open>i\<close>: a plane digit is
  appended to the slot at \<open>i-1\<close>, a star to the slot at \<open>i-2\<close>, and slot \<open>i\<close> is emptied.
  Both indices go through Python's indexing, so they wrap around at the start of the list.
\<close>

definition merge_planar :: "nat \<Rightarrow> string list \<Rightarrow> error + string list" where
  "merge_planar i brks =
     (if brks ! i \<in> set [''1'', ''0''] then
        (case py_index (length brks) (int i - 1) of
           Inl e \<Rightarrow> Inl e
         | Inr j \<Rightarrow> Inr ((brks[j := brks ! j @ brks ! i])[i := '''']))
      else Inr brks)"

definition merge_star :: "nat \<Rightarrow> string list \<Rightarrow> error + string list" where
  "merge_star i brks =
     (if brks ! i = ''*'' then
        (case py_index (length brks) (int i - 2) of
           Inl e \<Rightarrow> Inl e
         | Inr j \<Rightarrow> Inr ((brks[j := brks ! j @ ''*''])[i := '''']))
      else Inr brks)"

definition merge_at :: "string list \<Rightarrow> nat \<Rightarrow> error + string list" where
  "merge_at brks i =
     (case merge_planar i brks of Inl e \<Rightarrow> Inl e | Inr brks' \<Rightarrow> merge_star i brks')"

definition merge_brackets :: "string list \<Rightarrow> error + string list" where
  "merge_brackets brks =
     (case for_each merge_at [0..<length brks] brks of
        Inl e \<Rightarrow> Inl e
      | Inr brks' \<Rightarrow> Inr (filter (\<lambda>brk. brk \<noteq> '''') brks'))"

section \<open>Stack-based decoder\<close>

text \<open>
  The tokens a pass walks through for one node: the payload split into characters
  (\<^verbatim>\<open>list(label.xi)\<close>, none for the empty marker), merged, and for a right-to-left
  pass sorted by the key \<^verbatim>\<open>(x == "\\" + planar_idx, x)\<close>: Python compares the pairs
  lexicographically, \<^verbatim>\<open>False\<close> before \<^verbatim>\<open>True\<close>, strings by code points.
\<close>

definition order_brks :: "direction \<Rightarrow> string \<Rightarrow> string list \<Rightarrow> string list" where
  "order_brks dir planar_idx brks =
     (if dir = R2L then sort_key (\<lambda>x. (x = bslash # planar_idx, x)) brks else brks)"

definition chars_of :: "string \<Rightarrow> string list" where
  "chars_of s = map (\<lambda>c. [c]) s"

definition label_brks :: "D_Label \<Rightarrow> string list" where
  "label_brks lbl = (if xi lbl \<noteq> D_NONE_LABEL then chars_of (xi lbl) else [])"

definition node_brks :: "direction \<Rightarrow> string \<Rightarrow> D_Label \<Rightarrow> error + string list" where
  "node_brks dir planar_idx lbl =
     (case merge_brackets (label_brks lbl) of
        Inl e \<Rightarrow> Inl e
      | Inr brks \<Rightarrow> Inr (order_brks dir planar_idx brks))"

definition s_append_brk :: "direction \<Rightarrow> string \<Rightarrow> string" where
  "s_append_brk dir planar_idx = (if dir = L2R then ''/'' @ planar_idx else bslash # planar_idx)"

definition s_peek_brk :: "direction \<Rightarrow> string \<Rightarrow> string" where
  "s_peek_brk dir planar_idx = (if dir = L2R then ''>'' @ planar_idx else ''<'' @ planar_idx)"

text \<open>
  The inner loop over the tokens of the current node. The stack is a list whose first
  element is the top (\<^verbatim>\<open>stack[-1]\<close>); \<^verbatim>\<open>stack.pop()\<close> on the empty list raises
  \<^verbatim>\<open>IndexError\<close>.
\<close>

fun fill_heads ::
  "string \<Rightarrow> string \<Rightarrow> nat \<Rightarrow> string list \<Rightarrow> nat list \<times> D_Tree \<Rightarrow> error + nat list \<times> D_Tree" where
  "fill_heads app peek current_node [] st = Inr st"
| "fill_heads app peek current_node (char # brks) (stack, decoded_tree) =
     (let stack1 = (if str_in app char then current_node # stack else stack) in
      if str_in peek char then
        (let head_id = (case stack1 of [] \<Rightarrow> 0 | s # _ \<Rightarrow> s);
             tree1 = update_head decoded_tree current_node head_id in
         if str_in ''*'' char then
           (case stack1 of
              [] \<Rightarrow> Inl IndexError
            | _ # rest \<Rightarrow> fill_heads app peek current_node brks (rest, tree1))
         else fill_heads app peek current_node brks (stack1, tree1))
      else fill_heads app peek current_node brks (stack1, decoded_tree))"

text \<open>
  The body of the loop over the rows. \<^verbatim>\<open>current_node\<close> starts at \<open>0\<close> (left to right) or
  at \<open>len - 1\<close> (right to left) and moves by one with every row, so it is the position of
  the row in the sequence: the loop runs over the rows paired with their positions.
\<close>

fun visit_row ::
  "direction \<Rightarrow> string \<Rightarrow> nat list \<times> D_Tree \<Rightarrow> nat \<times> row \<Rightarrow> error + nat list \<times> D_Tree" where
  "visit_row dir planar_idx (stack, decoded_tree) (current_node, r) =
     (case node_brks dir planar_idx (label r) of
        Inl e \<Rightarrow> Inl e
      | Inr brks \<Rightarrow>
          fill_heads (s_append_brk dir planar_idx) (s_peek_brk dir planar_idx) current_node brks
            (stack,
             update_relation
               (update_upos (update_word decoded_tree current_node (word r))
                  current_node (postag r))
               current_node (li (label r))))"

definition decoding_step ::
  "LinearizedTree \<Rightarrow> D_Tree \<Rightarrow> string \<Rightarrow> direction \<Rightarrow> error + D_Tree" where
  "decoding_step lin_tree decoded_tree planar_idx dir =
     (case for_each (visit_row dir planar_idx)
             (iterrows dir (zip [0..<length lin_tree] lin_tree)) ([], decoded_tree) of
        Inl e \<Rightarrow> Inl e
      | Inr (stack, t) \<Rightarrow> Inr t)"

text \<open>Running a list of passes one after the other, the first exception ending the run.\<close>

definition run_passes ::
  "LinearizedTree \<Rightarrow> (string \<times> direction) list \<Rightarrow> D_Tree \<Rightarrow> error + D_Tree" where
  "run_passes lin_tree passes t =
     for_each (\<lambda>t pd. decoding_step lin_tree t (fst pd) (snd pd)) passes t"

text \<open>
  \<^verbatim>\<open>decode\<close>: the four passes in their fixed order on an empty tree with one node per
  row. The call of \<^verbatim>\<open>remove_dummy\<close> is commented out in the source, so the tree is
  returned as the passes leave it.
\<close>

definition fixed_passes :: "(string \<times> direction) list" where
  "fixed_passes = [(''0'', L2R), (''0'', R2L), (''1'', L2R), (''1'', R2L)]"

definition decode :: "LinearizedTree \<Rightarrow> error + D_Tree" where
  "decode lin_tree = run_passes lin_tree fixed_passes (empty_tree (length lin_tree))"

text \<open>A row with the given bracket payload, for concrete label sequences.\<close>

definition brk_row :: "string \<Rightarrow> row" where
  "brk_row payload =
     \<lparr>word = ''w'', postag = ''t'', features = [], label = \<lparr>xi = payload, li = ''dep''\<rparr>\<rparr>"

section \<open>Predicates on fragments and tokens\<close>

text \<open>
  The shape of every slot during the merge: behind its first character a slot holds plane
  digits and stars only, the characters the merge appends.
\<close>

definition fused :: "string \<Rightarrow> bool" where
  "fused s = (set (tl s) \<subseteq> {CHR ''0'', CHR ''1'', CHR ''*''})"

text \<open>
  A bracket token: a boundary character (anything but a plane digit or a star), alone,
  with a plane digit, or with a plane digit and a star. The encoder emits the tokens with a
  digit. \<open>slots\<close> is what the merge leaves of the characters of one token: the token in
  the slot of its first character and emptied slots behind it.
\<close>

definition boundary :: "char \<Rightarrow> bool" where
  "boundary c = (c \<notin> {CHR ''0'', CHR ''1'', CHR ''*''})"

fun brk_token :: "string \<Rightarrow> bool" where
  "brk_token [c] = boundary c"
| "brk_token [c, d] = (boundary c \<and> d \<in> {CHR ''0'', CHR ''1''})"
| "brk_token [c, d, s] = (boundary c \<and> d \<in> {CHR ''0'', CHR ''1''} \<and> s = CHR ''*'')"
| "brk_token _ = False"

definition slots :: "string \<Rightarrow> string list" where
  "slots t = t # replicate (length t - 1) []"

section \<open>The head assignment of a pass, apart from the tree\<close>

text \<open>
  For the proofs, the stack machine of a pass is run once more without the tree:
  \<open>fill_stack\<close> is \<open>fill_heads\<close> keeping only the last head assigned to the current node,
  \<open>row_heads\<close> and \<open>pass_heads\<close> collect these heads per node, and \<open>apply_heads\<close> writes
  them into a tree together with the word, tag and relation of each row. That a pass of
  the decoder is \<open>apply_heads\<close> of its \<open>pass_heads\<close> is proved below (\<open>pass_factor\<close>).
\<close>

fun fill_stack ::
  "string \<Rightarrow> string \<Rightarrow> nat \<Rightarrow> string list \<Rightarrow> nat list \<times> nat option \<Rightarrow> error + nat list \<times> nat option" where
  "fill_stack app peek current_node [] st = Inr st"
| "fill_stack app peek current_node (char # brks) (stack, ho) =
     (let stack1 = (if str_in app char then current_node # stack else stack) in
      if str_in peek char then
        (let head_id = (case stack1 of [] \<Rightarrow> 0 | s # _ \<Rightarrow> s) in
         if str_in ''*'' char then
           (case stack1 of
              [] \<Rightarrow> Inl IndexError
            | _ # rest \<Rightarrow> fill_stack app peek current_node brks (rest, Some head_id))
         else fill_stack app peek current_node brks (stack1, Some head_id))
      else fill_stack app peek current_node brks (stack1, ho))"

fun row_heads ::
  "direction \<Rightarrow> string \<Rightarrow> nat list \<times> (nat \<Rightarrow> nat option) \<Rightarrow> nat \<times> row
     \<Rightarrow> error + nat list \<times> (nat \<Rightarrow> nat option)" where
  "row_heads dir planar_idx (stack, m) (current_node, r) =
     (case node_brks dir planar_idx (label r) of
        Inl e \<Rightarrow> Inl e
      | Inr brks \<Rightarrow>
          (case fill_stack (s_append_brk dir planar_idx) (s_peek_brk dir planar_idx)
                  current_node brks (stack, None) of
             Inl e \<Rightarrow> Inl e
           | Inr (stack', ho) \<Rightarrow> Inr (stack', m(current_node := ho))))"

definition pass_heads ::
  "LinearizedTree \<Rightarrow> string \<Rightarrow> direction \<Rightarrow> error + (nat \<Rightarrow> nat option)" where
  "pass_heads lin_tree planar_idx dir =
     (case for_each (row_heads dir planar_idx)
             (iterrows dir (zip [0..<length lin_tree] lin_tree)) ([], \<lambda>_. None) of
        Inl e \<Rightarrow> Inl e
      | Inr (stack, m) \<Rightarrow> Inr m)"

definition set_node :: "row \<Rightarrow> nat option \<Rightarrow> D_Node \<Rightarrow> D_Node" where
  "set_node r ho n =
     (case ho of
        None \<Rightarrow> n\<lparr>form := word r, upos := postag r, relation := li (label r)\<rparr>
      | Some h \<Rightarrow>
          n\<lparr>form := word r, upos := postag r, relation := li (label r), head := Some h\<rparr>)"

definition apply_heads :: "LinearizedTree \<Rightarrow> (nat \<Rightarrow> nat option) \<Rightarrow> D_Tree \<Rightarrow> D_Tree" where
  "apply_heads lin_tree m t = map (\<lambda>i. set_node (lin_tree ! i) (m i) (t ! i)) [0..<length lin_tree]"

definition put_head :: "nat \<Rightarrow> nat option \<Rightarrow> D_Tree \<Rightarrow> D_Tree" where
  "put_head cur ho t = (case ho of None \<Rightarrow> t | Some h \<Rightarrow> update_head t cur h)"


definition heads_of :: "LinearizedTree \<Rightarrow> string \<times> direction \<Rightarrow> nat \<Rightarrow> nat option" where
  "heads_of lt pd = (case pass_heads lt (fst pd) (snd pd) of Inl e \<Rightarrow> (\<lambda>_. None) | Inr m \<Rightarrow> m)"


text \<open>
  The passes whose resolving marker occurs in a merged token of the row: those that can
  assign a head to its node.
\<close>

definition resolving_passes :: "row \<Rightarrow> (string \<times> direction) list" where
  "resolving_passes r =
     (case merge_brackets (label_brks (label r)) of
        Inl e \<Rightarrow> []
      | Inr brks \<Rightarrow>
          filter (\<lambda>pd. list_ex (str_in (s_peek_brk (snd pd) (fst pd))) brks) fixed_passes)"


section \<open>Bracket label encoder\<close>

text \<open>
  \<^verbatim>\<open>labels_brk[i] += s\<close>: the slot is read first, so an index beyond the list raises
  \<^verbatim>\<open>IndexError\<close> (node ids and heads are never negative).
\<close>

definition append_at :: "string list \<Rightarrow> nat \<Rightarrow> string \<Rightarrow> error + string list" where
  "append_at labels_brk i s =
     (if i < length labels_brk then Inr (labels_brk[i := labels_brk ! i @ s])
      else Inl IndexError)"

text \<open>
  The body of the loop of \<^verbatim>\<open>encoding_step\<close> for one node of the plane. The two flags
  \<^verbatim>\<open>plane.is_leftmost(node)\<close> and \<^verbatim>\<open>plane.is_rightmost(node)\<close> belong to the plane view, which
  is not part of the sources at hand: they are parameters here. Modelled from the spec:
  \<^verbatim>\<open>node.is_left_arc()\<close> holds when the dependent lies before its governor; comparing an
  unset head raises \<^verbatim>\<open>TypeError\<close>.
\<close>

definition encoding_node ::
  "(D_Node \<Rightarrow> bool) \<Rightarrow> (D_Node \<Rightarrow> bool) \<Rightarrow> string list \<Rightarrow> string list \<Rightarrow> D_Node
     \<Rightarrow> error + string list" where
  "encoding_node is_leftmost is_rightmost brk_chars labels_brk node =
     (if nid node = 0 then Inr labels_brk
      else
        (case head node of
           None \<Rightarrow> Inl TypeError
         | Some h \<Rightarrow>
             if nid node < h then
               (case append_at labels_brk (nid node) (brk_chars ! 0) of
                  Inl e \<Rightarrow> Inl e
                | Inr l1 \<Rightarrow>
                    (case (if is_leftmost node then append_at l1 (nid node) ''*'' else Inr l1) of
                       Inl e \<Rightarrow> Inl e
                     | Inr l2 \<Rightarrow>
                         append_at l2 h
                           (if \<not> str_in (brk_chars ! 1) (l2 ! h) then brk_chars ! 1 else '''')))
             else
               (case append_at labels_brk (nid node) (brk_chars ! 2) of
                  Inl e \<Rightarrow> Inl e
                | Inr l1 \<Rightarrow>
                    (case (if is_rightmost node then append_at l1 (nid node) ''*'' else Inr l1) of
                       Inl e \<Rightarrow> Inl e
                     | Inr l2 \<Rightarrow>
                         append_at l2 h
                           (if \<not> str_in (brk_chars ! 3) (l2 ! h) then brk_chars ! 3 else '''')))))"

definition encoding_step ::
  "(D_Node \<Rightarrow> bool) \<Rightarrow> (D_Node \<Rightarrow> bool) \<Rightarrow> D_Node list \<Rightarrow> string list \<Rightarrow> string list
     \<Rightarrow> error + string list" where
  "encoding_step is_leftmost is_rightmost plane labels_brk brk_chars =
     for_each (encoding_node is_leftmost is_rightmost brk_chars) plane labels_brk"

text \<open>The bracket characters of plane \<open>p\<close>: \<^verbatim>\<open>['<p', '\\p', '>p', '/p']\<close>.\<close>

definition brk_chars_of :: "string \<Rightarrow> string list" where
  "brk_chars_of p = [''<'' @ p, bslash # p, ''>'' @ p, ''/'' @ p]"

text \<open>
  The fragments as the specification describes them, to be compared with
  \<open>encoding_step\<close>: for every arc of the plane in order, the dependent marker (and the star
  when the dependent is flagged) goes to the dependent, and the governor marker goes to the
  governor unless an earlier arc of the plane with this governor and direction has put it
  there. \<open>seen\<close> holds the pairs of governor and direction that are already marked
  (\<open>True\<close> for left arcs); the result is what the plane adds to the fragment of node \<open>i\<close>.
  \<open>dep_piece\<close> is what an arc gives its dependent, \<open>gov_piece\<close> what it gives its governor.
\<close>

definition dep_piece :: "(D_Node \<Rightarrow> bool) \<Rightarrow> (D_Node \<Rightarrow> bool) \<Rightarrow> string \<Rightarrow> D_Node \<Rightarrow> nat \<Rightarrow> string" where
  "dep_piece lm rm p n g =
     (if nid n < g then ''<'' @ p @ (if lm n then ''*'' else [])
      else ''>'' @ p @ (if rm n then ''*'' else []))"

definition gov_piece :: "string \<Rightarrow> D_Node \<Rightarrow> nat \<Rightarrow> string" where
  "gov_piece p n g = (if nid n < g then bslash # p else ''/'' @ p)"

fun spec_fragment ::
  "(D_Node \<Rightarrow> bool) \<Rightarrow> (D_Node \<Rightarrow> bool) \<Rightarrow> string \<Rightarrow> (nat \<times> bool) set \<Rightarrow> D_Node list \<Rightarrow> nat
     \<Rightarrow> string" where
  "spec_fragment lm rm p seen [] i = []"
| "spec_fragment lm rm p seen (n # plane) i =
     (case (if nid n = 0 then None else head n) of
        None \<Rightarrow> spec_fragment lm rm p seen plane i
      | Some g \<Rightarrow>
          (if nid n = i then dep_piece lm rm p n g else [])
          @ (if g = i \<and> (g, nid n < g) \<notin> seen then gov_piece p n g else [])
          @ spec_fragment lm rm p (insert (g, nid n < g) seen) plane i)"

text \<open>
  \<open>marked\<close>: the governor markers of plane \<open>p\<close> stand in exactly the fragments of the
  governors recorded in \<open>seen\<close>.
\<close>

definition marked :: "string \<Rightarrow> (nat \<times> bool) set \<Rightarrow> string list \<Rightarrow> bool" where
  "marked p seen labels_brk =
     (\<forall>i < length labels_brk.
        (str_in (bslash # p) (labels_brk ! i) \<longleftrightarrow> (i, True) \<in> seen)
      \<and> (str_in (''/'' @ p) (labels_brk ! i) \<longleftrightarrow> (i, False) \<in> seen))"

text \<open>The number of positions of a string at which a marker occurs.\<close>

fun count_str :: "string \<Rightarrow> string \<Rightarrow> nat" where
  "count_str sub [] = (if sub = [] then 1 else 0)"
| "count_str sub (c # cs) =
     (if take (length sub) (c # cs) = sub then 1 else 0) + count_str sub cs"

text \<open>
  \<open>governs plane i left\<close>: some arc of the plane has governor \<open>i\<close> and the given direction
  (\<open>True\<close> for left arcs); node 0 is skipped by the encoder and contributes no arc.
\<close>

definition governs :: "D_Node list \<Rightarrow> nat \<Rightarrow> bool \<Rightarrow> bool" where
  "governs plane i left =
     (\<exists>n \<in> set plane. nid n \<noteq> 0 \<and> head n = Some i \<and> (nid n < i) = left)"

text \<open>A node with the given id and head and nothing else, for concrete planes.\<close>

definition arc_node :: "nat \<Rightarrow> nat \<Rightarrow> D_Node" where
  "arc_node i h = (empty_node i)\<lparr>head := Some h\<rparr>"

section \<open>Rows and token streams of a pass\<close>

text \<open>The top of the stack as a pass reads it: \<^verbatim>\<open>stack[-1] if len(stack) > 0 else 0\<close>.\<close>

definition top0 :: "nat list \<Rightarrow> nat" where
  "top0 stack = (case stack of [] \<Rightarrow> 0 | s # _ \<Rightarrow> s)"

text \<open>
  The three field updates at the start of the loop body of \<^verbatim>\<open>_decoding_step\<close>: word, tag
  and relation of the current node are written from the row.
\<close>

definition row_fields :: "D_Tree \<Rightarrow> nat \<Rightarrow> row \<Rightarrow> D_Tree" where
  "row_fields decoded_tree current_node r =
     update_relation
       (update_upos (update_word decoded_tree current_node (word r)) current_node (postag r))
       current_node (li (label r))"

text \<open>
  \<open>resolve_first\<close>: in the token list \<open>ts\<close>, every token with the resolving marker of the
  pass stands before every token with its opening marker.
\<close>

definition resolve_first :: "direction \<Rightarrow> string \<Rightarrow> string list \<Rightarrow> bool" where
  "resolve_first dir p ts =
     (\<forall>i < length ts. \<forall>j < length ts.
        str_in (s_peek_brk dir p) (ts ! i) \<and> str_in (s_append_brk dir p) (ts ! j) \<longrightarrow> i < j)"







section \<open>Encoder, planes and the round trip\<close>

text \<open>
  What a row does to the stack and the head map of a pass when its tokens are those the
  encoder writes: \<open>dep\<close> is \<open>None\<close> when the row has no resolving token of the pass and
  \<open>Some star\<close> when it has one (starred or not), \<open>gov\<close> tells whether it has the opening
  token. The resolving token is read first, against the stack as the row found it; a star
  pops, and raises on the empty stack; then the node is pushed.
\<close>

definition row_act ::
  "bool option \<Rightarrow> bool \<Rightarrow> nat \<Rightarrow> nat list \<times> (nat \<Rightarrow> nat option)
     \<Rightarrow> error + nat list \<times> (nat \<Rightarrow> nat option)" where
  "row_act dep gov i st =
     (case dep of
        None \<Rightarrow> Inr ((if gov then [i] else []) @ fst st, (snd st)(i := None))
      | Some star \<Rightarrow>
          if star \<and> fst st = [] then Inl IndexError
          else Inr ((if gov then [i] else []) @ (if star then tl (fst st) else fst st),
                    (snd st)(i := Some (case fst st of [] \<Rightarrow> 0 | s # _ \<Rightarrow> s))))"

text \<open>
  Modelled from the spec: the plane view of the partitioner (\<^verbatim>\<open>plane.is_leftmost\<close>,
  \<^verbatim>\<open>plane.is_rightmost\<close>) and the direction of an arc are not part of the sources at hand.
  An arc is a left arc when the dependent lies before its governor, a right arc otherwise.
  Among the arcs of a plane that share governor and direction, the leftmost dependent of
  the left arcs (smallest id) and the rightmost dependent of the right arcs (largest id)
  are flagged. A plane is the list of its nodes, in the order the encoder visits them.
\<close>

definition left_arc :: "D_Node \<Rightarrow> bool" where
  "left_arc n = (case head n of None \<Rightarrow> False | Some h \<Rightarrow> nid n < h)"

definition right_arc :: "D_Node \<Rightarrow> bool" where
  "right_arc n = (case head n of None \<Rightarrow> False | Some h \<Rightarrow> \<not> nid n < h)"

definition is_leftmost :: "D_Node list \<Rightarrow> D_Node \<Rightarrow> bool" where
  "is_leftmost plane node =
     (\<forall>m \<in> set plane. nid m \<noteq> 0 \<and> head m = head node \<and> left_arc m \<longrightarrow> nid node \<le> nid m)"

definition is_rightmost :: "D_Node list \<Rightarrow> D_Node \<Rightarrow> bool" where
  "is_rightmost plane node =
     (\<forall>m \<in> set plane. nid m \<noteq> 0 \<and> head m = head node \<and> right_arc m \<longrightarrow> nid m \<le> nid node)"

text \<open>
  Modelled from the spec: the constructor \<^verbatim>\<open>LinearizedTree(words, postags, feats, labels, n)\<close>
  is not part of the sources at hand. It assembles the rows from the three columns of the
  tree and the labels, position by position.
\<close>

definition linearized ::
  "string list \<Rightarrow> string list \<Rightarrow> (string \<times> string) list list \<Rightarrow> D_Label list \<Rightarrow> LinearizedTree" where
  "linearized words postags fts labels =
     map (\<lambda>(w, p, f, l). \<lparr>word = w, postag = p, features = f, label = l\<rparr>)
       (zip words (zip postags (zip fts labels)))"

text \<open>
  \<^verbatim>\<open>encode\<close>. The partitioner (\<^verbatim>\<open>D_Tree.two_planar_greedy\<close> or
  \<^verbatim>\<open>D_Tree.two_planar_propagate\<close>, chosen by \<^verbatim>\<open>planar_alg\<close>) is not part of the sources at
  hand: it is the parameter \<open>two_planar\<close>. The label list has one slot more than the tree
  has nodes; the first plane writes into the empty slots, the second plane into what the
  first one left; then one label is collected per node of the tree, in tree order, from
  the slot of its id (\<^verbatim>\<open>labels_brk[node.id]\<close> raises \<^verbatim>\<open>IndexError\<close> beyond the list).
\<close>

definition encode :: "(D_Tree \<Rightarrow> D_Node list \<times> D_Node list) \<Rightarrow> D_Tree \<Rightarrow> error + LinearizedTree" where
  "encode two_planar dep_tree =
     (case two_planar dep_tree of
        (p1_nodes, p2_nodes) \<Rightarrow>
          (case encoding_step (is_leftmost p1_nodes) (is_rightmost p1_nodes) p1_nodes
                  (replicate (length dep_tree + 1) '''') (brk_chars_of ''0'') of
             Inl e \<Rightarrow> Inl e
           | Inr labels1 \<Rightarrow>
               (case encoding_step (is_leftmost p2_nodes) (is_rightmost p2_nodes) p2_nodes
                       labels1 (brk_chars_of ''1'') of
                  Inl e \<Rightarrow> Inl e
                | Inr labels2 \<Rightarrow>
                    (case for_each
                            (\<lambda>encoded_labels node.
                               if nid node < length labels2
                               then Inr (encoded_labels
                                          @ [\<lparr>xi = labels2 ! nid node, li = relation node\<rparr>])
                               else Inl IndexError)
                            dep_tree [] of
                       Inl e \<Rightarrow> Inl e
                     | Inr encoded_labels \<Rightarrow>
                         Inr (linearized (map form dep_tree) (map upos dep_tree)
                                (map feats dep_tree) encoded_labels)))))"

text \<open>
  Modelled from the spec: the crossing test of the partitioner is not part of the sources
  at hand. Two arcs without a shared endpoint cross when exactly one end of the second
  lies strictly inside the span of the first and the other end lies outside it. The arc of
  a node is the pair of its id and its head; node 0 has none. A plane is crossing-free
  when no two of its arcs cross.
\<close>

definition crosses :: "nat \<times> nat \<Rightarrow> nat \<times> nat \<Rightarrow> bool" where
  "crosses a b =
     (let lo1 = min (fst a) (snd a); hi1 = max (fst a) (snd a);
          lo2 = min (fst b) (snd b); hi2 = max (fst b) (snd b)
      in lo1 \<noteq> lo2 \<and> lo1 \<noteq> hi2 \<and> hi1 \<noteq> lo2 \<and> hi1 \<noteq> hi2
         \<and> ((lo1 < lo2 \<and> lo2 < hi1 \<and> (hi2 < lo1 \<or> hi1 < hi2))
            \<or> (lo1 < hi2 \<and> hi2 < hi1 \<and> (lo2 < lo1 \<or> hi1 < lo2))))"

definition arc_of :: "D_Node \<Rightarrow> (nat \<times> nat) option" where
  "arc_of n = (if nid n = 0 then None else map_option (\<lambda>h. (nid n, h)) (head n))"

definition crossing_free :: "D_Node list \<Rightarrow> bool" where
  "crossing_free plane =
     (\<forall>a \<in> set plane. \<forall>b \<in> set plane.
        case (arc_of a, arc_of b) of (Some x, Some y) \<Rightarrow> \<not> crosses x y | _ \<Rightarrow> True)"

text \<open>
  A plane of a tree: some of the tree's nodes, in ascending order of their ids, whose arcs
  do not cross.
\<close>

definition plane_view :: "D_Tree \<Rightarrow> D_Node list \<Rightarrow> bool" where
  "plane_view t plane =
     (set plane \<subseteq> set t \<and> sorted_wrt (\<lambda>a b. nid a < nid b) plane \<and> crossing_free plane)"

text \<open>
  The fragment of \<open>spec_fragment\<close> as a list of tokens: what the plane adds to the
  fragment of node \<open>i\<close>, one token per marker.
\<close>

fun arc_tokens ::
  "(D_Node \<Rightarrow> bool) \<Rightarrow> (D_Node \<Rightarrow> bool) \<Rightarrow> string \<Rightarrow> (nat \<times> bool) set \<Rightarrow> D_Node list \<Rightarrow> nat
     \<Rightarrow> string list" where
  "arc_tokens lm rm p seen [] i = []"
| "arc_tokens lm rm p seen (n # plane) i =
     (case (if nid n = 0 then None else head n) of
        None \<Rightarrow> arc_tokens lm rm p seen plane i
      | Some g \<Rightarrow>
          (if nid n = i then [dep_piece lm rm p n g] else [])
          @ (if g = i \<and> (g, nid n < g) \<notin> seen then [gov_piece p n g] else [])
          @ arc_tokens lm rm p (insert (g, nid n < g) seen) plane i)"

text \<open>
  The arcs a pass resolves: a left-to-right pass resolves right arcs (the dependent does
  not lie before its governor), a right-to-left pass resolves left arcs. \<open>dep_nodes\<close> are
  the nodes of the plane with id \<open>i\<close> whose arc the pass resolves, \<open>dep_token\<close> is the
  token such a node receives as a dependent.
\<close>

definition dmatch :: "direction \<Rightarrow> D_Node \<Rightarrow> nat \<Rightarrow> bool" where
  "dmatch dir n g = (if dir = L2R then \<not> nid n < g else nid n < g)"

definition dep_nodes :: "direction \<Rightarrow> D_Node list \<Rightarrow> nat \<Rightarrow> D_Node list" where
  "dep_nodes dir plane i =
     filter (\<lambda>n. nid n \<noteq> 0 \<and> nid n = i
                 \<and> (case head n of None \<Rightarrow> False | Some g \<Rightarrow> dmatch dir n g)) plane"

definition dep_token :: "(D_Node \<Rightarrow> bool) \<Rightarrow> (D_Node \<Rightarrow> bool) \<Rightarrow> string \<Rightarrow> D_Node \<Rightarrow> string" where
  "dep_token lm rm p n = (case head n of None \<Rightarrow> [] | Some g \<Rightarrow> dep_piece lm rm p n g)"

text \<open>
  The tokens of node \<open>i\<close> after both planes, and the row \<^verbatim>\<open>encode\<close> emits for a node: its
  word, tag and features, the concatenated tokens as payload and the relation of the node.
\<close>

definition node_tokens :: "D_Node list \<Rightarrow> D_Node list \<Rightarrow> nat \<Rightarrow> string list" where
  "node_tokens p0 p1 i =
     arc_tokens (is_leftmost p0) (is_rightmost p0) ''0'' {} p0 i
     @ arc_tokens (is_leftmost p1) (is_rightmost p1) ''1'' {} p1 i"

definition encoded_row :: "D_Node list \<Rightarrow> D_Node list \<Rightarrow> D_Node \<Rightarrow> row" where
  "encoded_row p0 p1 n =
     \<lparr>word = form n, postag = upos n, features = feats n,
      label = \<lparr>xi = concat (node_tokens p0 p1 (nid n)), li = relation n\<rparr>\<rparr>"

text \<open>The plane a plane digit stands for.\<close>

definition plane_of :: "string \<Rightarrow> D_Node list \<Rightarrow> D_Node list \<Rightarrow> D_Node list" where
  "plane_of q p0 p1 = (if q = ''0'' then p0 else p1)"

text \<open>
  The head the pass of direction \<open>dir\<close> over \<open>plane\<close> has to find for node \<open>i\<close> of the tree:
  the head of the node when the node is not node 0, lies in the plane and its arc has the
  direction the pass resolves; and whether the token of that arc is starred.
\<close>

definition pass_arc :: "direction \<Rightarrow> D_Node list \<Rightarrow> D_Tree \<Rightarrow> nat \<Rightarrow> nat option" where
  "pass_arc dir plane t i =
     (if i < length t \<and> i \<noteq> 0 \<and> t ! i \<in> set plane
         \<and> (case head (t ! i) of None \<Rightarrow> False | Some g \<Rightarrow> dmatch dir (t ! i) g)
      then head (t ! i) else None)"

definition pass_star :: "direction \<Rightarrow> D_Node list \<Rightarrow> D_Tree \<Rightarrow> nat \<Rightarrow> bool" where
  "pass_star dir plane t i =
     (if dir = L2R then is_rightmost plane (t ! i) else is_leftmost plane (t ! i))"

text \<open>
  Every node but node 0 has a head, the head is the id of a node of the tree, and no node
  is its own head.
\<close>

definition well_headed :: "D_Tree \<Rightarrow> bool" where
  "well_headed t =
     (\<forall>n \<in> set t. nid n \<noteq> 0 \<longrightarrow>
        (case head n of None \<Rightarrow> False | Some h \<Rightarrow> h < length t \<and> h \<noteq> nid n))"

text \<open>
  The arcs of the tree are split in two planes and none is left out: both lists are planes
  of the tree, and every node but node 0 lies in exactly one of them.
\<close>

definition two_planes :: "D_Tree \<Rightarrow> D_Node list \<Rightarrow> D_Node list \<Rightarrow> bool" where
  "two_planes t p0 p1 =
     (plane_view t p0 \<and> plane_view t p1
      \<and> (\<forall>n \<in> set t. nid n \<noteq> 0 \<longrightarrow> (n \<in> set p0) \<noteq> (n \<in> set p1)))"

text \<open>
  What \<^verbatim>\<open>decode\<close> gives back for a node: the node itself, with the head unset on node 0
  (the virtual root is no dependent and no pass assigns it a head) and without features
  (no pass writes them).
\<close>

definition restored :: "D_Node \<Rightarrow> D_Node" where
  "restored n = n\<lparr>head := (if nid n = 0 then None else head n), feats := []\<rparr>"

text \<open>
  Concrete trees: a node with word \<^verbatim>\<open>w\<close>, tag \<^verbatim>\<open>t\<close> and no features; the tree with the
  virtual root in first position and the arcs 1 \<open>\<rightarrow>\<close> 3 and 2 \<open>\<rightarrow>\<close> 4, which cross, with the
  second of them alone in plane 1; a row with word \<^verbatim>\<open>w\<close>, tag \<^verbatim>\<open>t\<close> and no features.
\<close>

definition word_node :: "nat \<Rightarrow> nat option \<Rightarrow> string \<Rightarrow> D_Node" where
  "word_node i h rel = \<lparr>nid = i, head = h, relation = rel, form = ''w'', upos = ''t'', feats = []\<rparr>"

definition crossing_tree :: D_Tree where
  "crossing_tree =
     [word_node 0 None ''-'', word_node 1 (Some 3) ''a'', word_node 2 (Some 4) ''b'',
      word_node 3 (Some 0) ''root'', word_node 4 (Some 3) ''c'']"

definition crossing_planes :: "D_Tree \<Rightarrow> D_Node list \<times> D_Node list" where
  "crossing_planes t = ([t ! 0, t ! 1, t ! 3, t ! 4], [t ! 2])"

definition label_row :: "string \<Rightarrow> string \<Rightarrow> row" where
  "label_row payload rel =
     \<lparr>word = ''w'', postag = ''t'', features = [], label = \<lparr>xi = payload, li = rel\<rparr>\<rparr>"

text \<open>
  The tree with the nodes 1, 2, 3 and the heads 2, 0, 2, stored without a node for the
  virtual root, and the partition that puts every arc in plane 0.
\<close>

definition scenario_tree :: D_Tree where
  "scenario_tree =
     [word_node 1 (Some 2) ''nsubj'', word_node 2 (Some 0) ''root'', word_node 3 (Some 2) ''obj'']"

definition one_plane :: "D_Tree \<Rightarrow> D_Node list \<times> D_Node list" where
  "one_plane t = (t, [])"

section \<open>Loops and the shape of the decoded tree\<close>

lemma for_each_invariant:
  assumes "for_each f xs s = Inr s'" and "P s"
    and "\<And>a x b. x \<in> set xs \<Longrightarrow> P a \<Longrightarrow> f a x = Inr b \<Longrightarrow> P b"
  shows "P s'"
  using assms
proof (induction xs arbitrary: s)
  case Nil
  then show ?case by simp
next
  case (Cons x xs)
  from Cons.prems(1) obtain s1 where s1: "f s x = Inr s1" and rest: "for_each f xs s1 = Inr s'"
    by (auto split: sum.splits)
  have "P s1" using Cons.prems(3)[of x s s1] Cons.prems(2) s1 by simp
  then show ?case using Cons.IH[OF rest] Cons.prems(3) by auto
qed

lemma map_update_same: "(map f t)[i := f (t ! i)] = map f t"
  by (cases "i < length t") (simp_all add: list_update_same_conv list_update_beyond)

lemma nid_update [simp]:
  "map nid (update_word t i w) = map nid t"
  "map nid (update_upos t i w) = map nid t"
  "map nid (update_relation t i w) = map nid t"
  "map nid (update_head t i h) = map nid t"
  by (simp_all add: update_word_def update_upos_def update_relation_def update_head_def
      map_update map_update_same)

lemma fill_heads_nid:
  "fill_heads a p cur brks (stack, t) = Inr (stack', t') \<Longrightarrow> map nid t' = map nid t"
proof (induction brks arbitrary: stack t)
  case Nil
  then show ?case by simp
next
  case (Cons c brks)
  then show ?case
    by (auto simp: Let_def split: if_splits list.splits)
qed

lemma visit_row_nid:
  "visit_row dir p (stack, t) cr = Inr (stack', t') \<Longrightarrow> map nid t' = map nid t"
  by (cases cr) (auto split: sum.splits dest!: fill_heads_nid)

lemma decoding_step_nid:
  assumes "decoding_step lt t p dir = Inr t'"
  shows "map nid t' = map nid t"
proof -
  from assms obtain stack' where
    fe: "for_each (visit_row dir p) (iterrows dir (zip [0..<length lt] lt)) ([], t)
           = Inr (stack', t')"
    by (auto simp: decoding_step_def split: sum.splits prod.splits)
  have "map nid (snd (stack', t')) = map nid t"
    by (rule for_each_invariant[OF fe, where P = "\<lambda>s. map nid (snd s) = map nid t"])
      (auto dest: visit_row_nid)
  then show ?thesis by simp
qed

lemma run_passes_nid:
  assumes "run_passes lt ps t = Inr t'"
  shows "map nid t' = map nid t"
  by (rule for_each_invariant[OF assms[unfolded run_passes_def],
        where P = "\<lambda>s. map nid s = map nid t"])
    (auto dest: decoding_step_nid)

lemma nid_empty_tree: "map nid (empty_tree n) = [0..<n]"
  by (simp add: empty_tree_def empty_node_def comp_def map_idI)

section \<open>The virtual root after decoding\<close>

text \<open>
  C2, as stated: after the four passes \<^verbatim>\<open>decode\<close> discards the virtual root sentinel, so
  that only the real nodes are returned. The code does not: for the two rows with payloads
  \<^verbatim>\<open>/0\<close> and \<^verbatim>\<open>>0*\<close> the returned tree still has the node with id 0, in front of the
  node it governs.
\<close>

theorem decode_keeps_sentinel_example:
  "map_sum id (map (\<lambda>n. (nid n, head n))) (decode [brk_row ''/0'', brk_row ''>0*''])
     = Inr [(0, None), (1, Some 0)]"
  by code_simp

text \<open>
  C2, amended: whenever \<^verbatim>\<open>decode\<close> returns, the tree has exactly one node per row of the
  label sequence, with the ids \<open>0, 1, \<dots>, n - 1\<close> in order; the node with id 0 is kept
  (the call that would remove it is commented out).
\<close>

theorem decode_keeps_every_node:
  "decode lin_tree = Inr t \<Longrightarrow> map nid t = [0..<length lin_tree]"
  unfolding decode_def by (drule run_passes_nid) (simp add: nid_empty_tree)

theorem decode_keeps_every_node_witness:
  "decode [brk_row ''/0'', brk_row ''>0'']
     = Inr [\<lparr>nid = 0, head = None, relation = ''dep'', form = ''w'', upos = ''t'', feats = []\<rparr>,
            \<lparr>nid = 1, head = Some 0, relation = ''dep'', form = ''w'', upos = ''t'', feats = []\<rparr>]
   \<and> map nid
        [\<lparr>nid = 0, head = None, relation = ''dep'', form = ''w'', upos = ''t'', feats = []\<rparr>,
         \<lparr>nid = 1, head = Some 0, relation = ''dep'', form = ''w'', upos = ''t'', feats = []\<rparr>]
       = [0..<length [brk_row ''/0'', brk_row ''>0'']]"
proof -
  have h: "decode [brk_row ''/0'', brk_row ''>0'']
     = Inr [\<lparr>nid = 0, head = None, relation = ''dep'', form = ''w'', upos = ''t'', feats = []\<rparr>,
            \<lparr>nid = 1, head = Some 0, relation = ''dep'', form = ''w'', upos = ''t'', feats = []\<rparr>]"
    by code_simp
  show ?thesis using h decode_keeps_every_node [OF h] by simp
qed

section \<open>The zero-length label sequence\<close>

text \<open>
  C8, as stated: \<^verbatim>\<open>decode\<close> raises on a zero-length label sequence. The code raises
  nothing there.
\<close>

theorem decode_empty_does_not_raise: "\<not> isl (decode [])"
  by code_simp

text \<open>
  C8, amended: on a zero-length label sequence \<^verbatim>\<open>decode\<close> returns the empty tree: the
  four passes have no row to visit and there is no check of the length.
\<close>

theorem decode_empty: "decode [] = Inr (empty_tree 0)"
  by code_simp

section \<open>A starred resolving token on an empty stack\<close>

text \<open>
  C4: a resolving token met on an empty stack gives the node the head 0 and the pass goes
  on, also when the token carries the star. For the bare token the code does so; for the
  starred token it assigns the head 0 and then pops the empty stack, which raises.
\<close>

theorem unbalanced_starred_token_raises:
  "decode [brk_row ''>0*''] = Inl IndexError"
  by code_simp

section \<open>The merge of bracket tokens\<close>

lemma for_each_append:
  "for_each f (xs @ ys) s = (case for_each f xs s of Inl e \<Rightarrow> Inl e | Inr s' \<Rightarrow> for_each f ys s')"
  by (induction xs arbitrary: s) (auto split: sum.splits)



lemma py_index_lt: "py_index n k = Inr j \<Longrightarrow> j < n"
  by (auto simp: py_index_def split: if_splits)

subsection \<open>The characters of well-formed tokens\<close>

lemma merge_at_boundary:
  assumes "boundary c"
  shows "merge_at (S @ [c] # R) (length S) = Inr (S @ [c] # R)"
  using assms by (auto simp: merge_at_def merge_planar_def merge_star_def boundary_def)

lemma merge_at_digit:
  assumes "d \<in> {CHR ''0'', CHR ''1''}"
  shows "merge_at (S @ x # [d] # R) (Suc (length S)) = Inr (S @ (x @ [d]) # [] # R)"
proof -
  have "py_index (length (S @ x # [d] # R)) (int (Suc (length S)) - 1) = Inr (length S)"
    by (simp add: py_index_def)
  then have "merge_planar (Suc (length S)) (S @ x # [d] # R) = Inr (S @ (x @ [d]) # [] # R)"
    using assms by (auto simp: merge_planar_def nth_append list_update_append)
  then show ?thesis by (simp add: merge_at_def merge_star_def nth_append)
qed

lemma merge_at_star:
  "merge_at (S @ x # y # ''*'' # R) (Suc (Suc (length S))) = Inr (S @ (x @ ''*'') # y # [] # R)"
proof -
  have "py_index (length (S @ x # y # ''*'' # R)) (int (Suc (Suc (length S))) - 2)
          = Inr (length S)"
    by (simp add: py_index_def)
  moreover have "merge_planar (Suc (Suc (length S))) (S @ x # y # ''*'' # R)
          = Inr (S @ x # y # ''*'' # R)"
    by (simp add: merge_planar_def nth_append)
  ultimately show ?thesis
    by (simp add: merge_at_def merge_star_def nth_append list_update_append)
qed

text \<open>The loop over the characters of one token, whatever lies before and behind it.\<close>

lemma merge_token:
  assumes "brk_token t"
  shows "for_each merge_at [length S..<length S + length t] (S @ chars_of t @ R)
           = Inr (S @ slots t @ R)"
proof -
  consider c where "t = [c]" "boundary c"
    | c d where "t = [c, d]" "boundary c" "d \<in> {CHR ''0'', CHR ''1''}"
    | c d where "t = [c, d, CHR ''*'']" "boundary c" "d \<in> {CHR ''0'', CHR ''1''}"
    using assms by (cases t rule: brk_token.cases) auto
  then show ?thesis
  proof cases
    case 1
    then show ?thesis
      by (simp add: chars_of_def slots_def merge_at_boundary)
  next
    case 2
    have idx: "[length S..<length S + length t] = [length S, Suc (length S)]"
      by (simp add: 2 upt_rec)
    show ?thesis unfolding idx
      using merge_at_boundary[OF 2(2), of S "[d] # R"] merge_at_digit[OF 2(3), of S "[c]" R]
      by (simp add: 2 chars_of_def slots_def)
  next
    case 3
    have idx: "[length S..<length S + length t]
                 = [length S, Suc (length S), Suc (Suc (length S))]"
      by (simp add: 3 upt_rec)
    show ?thesis unfolding idx
      using merge_at_boundary[OF 3(2), of S "[d] # ''*'' # R"]
        merge_at_digit[OF 3(3), of S "[c]" "''*'' # R"]
        merge_at_star[of S "[c, d]" "[]" R]
      by (simp add: 3 chars_of_def slots_def)
  qed
qed

lemma merge_tokens:
  assumes "\<forall>t \<in> set ts. brk_token t"
  shows "for_each merge_at [length S..<length S + length (concat ts)] (S @ chars_of (concat ts))
           = Inr (S @ concat (map slots ts))"
  using assms
proof (induction ts arbitrary: S)
  case Nil
  then show ?case by (simp add: chars_of_def)
next
  case (Cons t ts)
  have len: "length (slots t) = length t"
    using Cons.prems by (cases t) (auto simp: slots_def)
  have split: "[length S..<length S + length (concat (t # ts))]
      = [length S..<length S + length t]
        @ [length S + length t..<length S + length t + length (concat ts)]"
    using upt_add_eq_append[of "length S" "length S + length t" "length (concat ts)"]
    by (simp add: add.assoc)
  have ch: "chars_of (concat (t # ts)) = chars_of t @ chars_of (concat ts)"
    by (simp add: chars_of_def)
  have 1: "for_each merge_at [length S..<length S + length t]
             (S @ chars_of t @ chars_of (concat ts))
      = Inr (S @ slots t @ chars_of (concat ts))"
    using Cons.prems by (intro merge_token) simp
  have 2: "for_each merge_at [length (S @ slots t)..<length (S @ slots t) + length (concat ts)]
      ((S @ slots t) @ chars_of (concat ts)) = Inr ((S @ slots t) @ concat (map slots ts))"
    using Cons.prems by (intro Cons.IH) simp
  show ?case
    unfolding split ch for_each_append 1 using 2 by (simp add: len)
qed

lemma filter_slots:
  assumes "\<forall>t \<in> set ts. brk_token t"
  shows "filter (\<lambda>brk. brk \<noteq> []) (concat (map slots ts)) = ts"
  using assms
proof (induction ts)
  case Nil
  then show ?case by simp
next
  case (Cons t ts)
  then have "t \<noteq> []" by (cases t) auto
  with Cons show ?case by (simp add: slots_def)
qed

subsection \<open>Merging merged tokens\<close>

lemma merge_at_token_fixed:
  assumes "brks ! i \<notin> {''0'', ''1'', ''*''}"
  shows "merge_at brks i = Inr brks"
  using assms by (simp add: merge_at_def merge_planar_def merge_star_def)

lemma for_each_merge_fixed:
  assumes "\<forall>t \<in> set brks. t \<notin> {''0'', ''1'', ''*''}" "set is \<subseteq> {..<length brks}"
  shows "for_each merge_at is brks = Inr brks"
  using assms(2)
proof (induction "is")
  case Nil
  then show ?case by simp
next
  case (Cons i "is")
  then have "brks ! i \<in> set brks" by simp
  with assms(1) have "merge_at brks i = Inr brks" by (intro merge_at_token_fixed) blast
  with Cons show ?case by simp
qed

lemma brk_token_not_bare:
  "brk_token t \<Longrightarrow> t \<notin> {''0'', ''1'', ''*''} \<and> t \<noteq> []"
  by (cases t rule: brk_token.cases) (auto simp: boundary_def)

text \<open>
  C7, as stated: for every raw character sequence, merging twice gives what merging once
  gives. The code does not: the characters \<^verbatim>\<open><00\<close> merge into the tokens \<^verbatim>\<open><0\<close> and
  \<^verbatim>\<open>0\<close>, and merging these two tokens fuses them into the single token \<^verbatim>\<open><00\<close>.
\<close>

theorem merge_twice_differs_example:
  "merge_brackets (chars_of ''<00'') = Inr [''<0'', ''0'']
   \<and> merge_brackets [''<0'', ''0''] = Inr [''<00'']"
  by code_simp

text \<open>
  C7, amended: for every sequence of bracket tokens (a boundary character, alone, with its
  plane digit, or with its plane digit and a star; the encoder's fragments are of this
  kind), the merge of their characters returns exactly these tokens in their order, and
  merging the result again returns it unchanged.
\<close>

theorem merge_brackets_tokens:
  assumes "\<forall>t \<in> set ts. brk_token t"
  shows "merge_brackets (chars_of (concat ts)) = Inr ts \<and> merge_brackets ts = Inr ts"
proof
  have "for_each merge_at
          [length ([]::string list)..<length ([]::string list) + length (concat ts)]
          ([] @ chars_of (concat ts)) = Inr ([] @ concat (map slots ts))"
    by (rule merge_tokens[OF assms])
  then show "merge_brackets (chars_of (concat ts)) = Inr ts"
    by (simp add: merge_brackets_def chars_of_def filter_slots[OF assms])
next
  have "for_each merge_at [0..<length ts] ts = Inr ts"
    using assms brk_token_not_bare by (intro for_each_merge_fixed) auto
  moreover have "filter (\<lambda>brk. brk \<noteq> []) ts = ts"
    using assms brk_token_not_bare by (simp add: filter_id_conv)
  ultimately show "merge_brackets ts = Inr ts"
    by (simp add: merge_brackets_def)
qed

theorem merge_brackets_tokens_witness:
  "brk_token [bslash, CHR ''0''] \<and> brk_token ''>0*'' \<and> brk_token ''/0''
   \<and> merge_brackets (chars_of (concat [[bslash, CHR ''0''], ''>0*'', ''/0'']))
       = Inr [[bslash, CHR ''0''], ''>0*'', ''/0'']
   \<and> merge_brackets [[bslash, CHR ''0''], ''>0*'', ''/0'']
       = Inr [[bslash, CHR ''0''], ''>0*'', ''/0'']"
proof -
  have h: "\<forall>t \<in> set [[bslash, CHR ''0''], ''>0*'', ''/0'']. brk_token t"
    by (simp add: boundary_def)
  show ?thesis using h merge_brackets_tokens [OF h] by simp
qed

section \<open>Where the decoder raises and where it cannot\<close>


lemma str_in_subset: "str_in sub s \<Longrightarrow> set sub \<subseteq> set s"
proof (induction s)
  case Nil
  then show ?case by simp
next
  case (Cons c cs)
  then show ?case
    using set_take_subset[of "length sub" "c # cs"] by auto
qed


section \<open>The order in which a pass reads the tokens of a node\<close>





section \<open>Resolving and pushing on the same node\<close>

lemma fused_append:
  "fused s \<Longrightarrow> d \<in> {''0'', ''1'', ''*''} \<Longrightarrow> fused (s @ d)"
  by (cases s) (auto simp: fused_def)

lemma fused_all_update:
  assumes "\<forall>s \<in> set brks. fused s" "fused x"
  shows "\<forall>s \<in> set (brks[j := x]). fused s"
  using set_update_subset_insert[of brks j x] assms by auto

lemma fused_fuse_step:
  assumes "\<forall>s \<in> set brks. fused s" "j < length brks" "d \<in> {''0'', ''1'', ''*''}"
  shows "\<forall>s \<in> set ((brks[j := brks ! j @ d])[i := '''']). fused s"
proof -
  have "fused (brks ! j @ d)" using assms by (auto intro: fused_append)
  then have "\<forall>s \<in> set (brks[j := brks ! j @ d]). fused s"
    by (rule fused_all_update[OF assms(1)])
  moreover have "fused ''''" by (simp add: fused_def)
  ultimately show ?thesis by (rule fused_all_update)
qed

lemma merge_planar_fused:
  assumes "merge_planar i brks = Inr b" "\<forall>s \<in> set brks. fused s"
  shows "(\<forall>s \<in> set b. fused s) \<and> length b = length brks"
proof (cases "brks ! i \<in> set [''1'', ''0'']")
  case True
  with assms(1) obtain j where b: "b = (brks[j := brks ! j @ brks ! i])[i := '''']"
    and j: "py_index (length brks) (int i - 1) = Inr j"
    by (auto simp: merge_planar_def split: sum.splits)
  from True have "brks ! i \<in> {''0'', ''1'', ''*''}" by auto
  from fused_fuse_step[OF assms(2) py_index_lt[OF j] this] show ?thesis
    unfolding b by simp
next
  case False
  with assms show ?thesis by (simp add: merge_planar_def)
qed

lemma merge_star_fused:
  assumes "merge_star i brks = Inr b" "\<forall>s \<in> set brks. fused s"
  shows "(\<forall>s \<in> set b. fused s) \<and> length b = length brks"
proof (cases "brks ! i = ''*''")
  case True
  with assms(1) obtain j where b: "b = (brks[j := brks ! j @ ''*''])[i := '''']"
    and j: "py_index (length brks) (int i - 2) = Inr j"
    by (auto simp: merge_star_def split: sum.splits)
  have "''*'' \<in> {''0'', ''1'', ''*''}" by simp
  from fused_fuse_step[OF assms(2) py_index_lt[OF j] this] show ?thesis
    unfolding b by simp
next
  case False
  with assms show ?thesis by (simp add: merge_star_def)
qed

lemma merge_at_fused:
  assumes "merge_at brks i = Inr b" "\<forall>s \<in> set brks. fused s"
  shows "(\<forall>s \<in> set b. fused s) \<and> length b = length brks"
proof -
  from assms(1) obtain b1 where 1: "merge_planar i brks = Inr b1" and 2: "merge_star i b1 = Inr b"
    by (auto simp: merge_at_def split: sum.splits)
  from merge_planar_fused[OF 1 assms(2)] merge_star_fused[OF 2] show ?thesis by simp
qed

lemma merge_brackets_fused:
  assumes "merge_brackets brks = Inr ts" "\<forall>s \<in> set brks. fused s"
  shows "\<forall>s \<in> set ts. fused s"
proof -
  from assms(1) obtain b where b: "for_each merge_at [0..<length brks] brks = Inr b"
    and ts: "ts = filter (\<lambda>brk. brk \<noteq> '''') b"
    by (auto simp: merge_brackets_def split: sum.splits)
  have "\<forall>s \<in> set b. fused s"
    by (rule for_each_invariant[OF b, where P = "\<lambda>b. \<forall>s \<in> set b. fused s"])
      (use assms(2) merge_at_fused in blast)+
  then show ?thesis by (simp add: ts)
qed

lemma label_brks_fused: "\<forall>s \<in> set (label_brks lbl). fused s"
  by (auto simp: label_brks_def chars_of_def fused_def)

text \<open>A merged token that contains a marker starts with the marker's boundary character.\<close>

lemma fused_marker_hd:
  assumes "fused tok" "str_in (c # p) tok" "c \<notin> {CHR ''0'', CHR ''1'', CHR ''*''}"
  shows "\<exists>rest. tok = c # rest"
proof -
  from str_in_subset[OF assms(2)] have "c \<in> set tok" by simp
  with assms(1,3) show ?thesis by (cases tok) (auto simp: fused_def)
qed

text \<open>
  C5, as stated: in every pass, left-to-right ones included, a node whose fragment has both
  a resolving and an opening token of the pass gets its head from the stack before it is
  pushed. A left-to-right pass does not reorder: on the fragment \<^verbatim>\<open>/0>0\<close> it pushes
  node 1 first and then resolves it against itself, where resolving first would have given
  the head 0.
\<close>

theorem l2r_pushes_before_resolving_example:
  "map_sum id (map head)
     (decoding_step [brk_row ''/0'', brk_row ''/0>0''] (empty_tree 2) ''0'' L2R)
   = Inr [None, Some 1]"
  by code_simp

text \<open>
  A right-to-left pass sorts the merged tokens of a node, and a merged token that contains
  the resolving marker starts with \<^verbatim>\<open><\<close>, one that contains the opening marker with a
  backslash: every token with the resolving marker stands before every token with the
  opening marker in the list the pass walks through.
\<close>

lemma r2l_token_order:
  assumes ts: "node_brks R2L p lbl = Inr ts"
    and i: "i < length ts" and j: "j < length ts"
    and res: "str_in (s_peek_brk R2L p) (ts ! i)"
    and opn: "str_in (s_append_brk R2L p) (ts ! j)"
  shows "i < j"
proof (rule ccontr)
  assume "\<not> i < j"
  then have ji: "j \<le> i" by simp
  from ts obtain brks where m: "merge_brackets (label_brks lbl) = Inr brks"
    and tsdef: "ts = sort_key (\<lambda>x. (x = bslash # p, x)) brks"
    by (auto simp: node_brks_def order_brks_def split: sum.splits)
  from merge_brackets_fused[OF m label_brks_fused] have "\<forall>s \<in> set ts. fused s"
    by (simp add: tsdef)
  with i j have fi: "fused (ts ! i)" and fj: "fused (ts ! j)" by simp_all
  from fused_marker_hd[OF fi] res obtain ri where ri: "ts ! i = CHR ''<'' # ri"
    by (auto simp: s_peek_brk_def)
  from fused_marker_hd[OF fj] opn obtain rj where rj: "ts ! j = bslash # rj"
    by (auto simp: s_append_brk_def)
  have "sorted (map (\<lambda>x. (x = bslash # p, x)) ts)"
    unfolding tsdef by (rule sorted_sort_key)
  then have "(map (\<lambda>x. (x = bslash # p, x)) ts) ! j \<le> (map (\<lambda>x. (x = bslash # p, x)) ts) ! i"
    using ji i by (simp add: sorted_iff_nth_mono del: nth_map)
  then have "(ts ! j = bslash # p, ts ! j) \<le> (ts ! i = bslash # p, ts ! i)"
    using i j by simp
  then show False
    by (simp add: ri rj less_eq_prod_def less_char_def)
qed

section \<open>A pass as a head assignment\<close>

lemma update_head_twice: "update_head (update_head t i h) i h' = update_head t i h'"
  by (cases "i < length t") (simp_all add: update_head_def list_update_beyond)

lemma update_head_put: "update_head (put_head cur ho t) cur h = update_head t cur h"
  by (cases ho) (simp_all add: put_head_def update_head_twice)

lemma fill_heads_factor:
  "fill_heads a p cur brks (stack, put_head cur ho t)
     = map_sum id (\<lambda>(s', ho'). (s', put_head cur ho' t)) (fill_stack a p cur brks (stack, ho))"
proof (induction brks arbitrary: stack ho)
  case Nil
  then show ?case by simp
next
  case (Cons c brks)
  have up: "\<And>h. update_head (put_head cur ho t) cur h = put_head cur (Some h) t"
    by (simp add: update_head_put) (simp add: put_head_def)
  show ?case
    by (simp add: Let_def up Cons.IH split: list.splits)
qed

lemma put_head_fields:
  assumes "cur < length T"
  shows "put_head cur ho
           (update_relation (update_upos (update_word T cur (word r)) cur (postag r)) cur
              (li (label r)))
         = T[cur := set_node r ho (T ! cur)]"
  using assms
  by (cases ho)
    (simp_all add: put_head_def update_head_def update_relation_def update_upos_def
      update_word_def set_node_def)

lemma visit_row_factor:
  assumes "cur < length T"
  shows "visit_row dir p (stack, T) (cur, r) =
     (case row_heads dir p (stack, m) (cur, r) of
        Inl e \<Rightarrow> Inl e
      | Inr (s', m') \<Rightarrow> Inr (s', T[cur := set_node r (m' cur) (T ! cur)]))"
proof (cases "node_brks dir p (label r)")
  case (Inl e)
  then show ?thesis by simp
next
  case (Inr brks)
  let ?T1 = "update_relation (update_upos (update_word T cur (word r)) cur (postag r)) cur
               (li (label r))"
  have "fill_heads (s_append_brk dir p) (s_peek_brk dir p) cur brks (stack, put_head cur None ?T1)
      = map_sum id (\<lambda>(s', ho'). (s', put_head cur ho' ?T1))
          (fill_stack (s_append_brk dir p) (s_peek_brk dir p) cur brks (stack, None))"
    by (rule fill_heads_factor)
  then show ?thesis
    using Inr put_head_fields[OF assms]
    by (auto simp: put_head_def split: sum.splits)
qed

lemma row_heads_other:
  assumes "row_heads dir p (stack, m) (cur, r) = Inr (s', m')" "i \<noteq> cur"
  shows "m' i = m i"
  using assms by (auto split: sum.splits)

lemma for_each_row_heads_other:
  assumes "for_each (row_heads dir p) rows (stack, m) = Inr (s', m')" "i \<notin> fst ` set rows"
  shows "m' i = m i"
  using assms
proof (induction rows arbitrary: stack m)
  case Nil
  then show ?case by simp
next
  case (Cons x rows)
  obtain cur r where x: "x = (cur, r)" by (cases x)
  from Cons.prems(1) obtain s1 m1 where 1: "row_heads dir p (stack, m) (cur, r) = Inr (s1, m1)"
    and 2: "for_each (row_heads dir p) rows (s1, m1) = Inr (s', m')"
    unfolding x by (auto split: sum.splits)
  from Cons.prems(2) have "i \<noteq> cur" "i \<notin> fst ` set rows" by (auto simp: x)
  with Cons.IH[OF 2] row_heads_other[OF 1] show ?case by simp
qed

lemma pass_sim:
  assumes "distinct (map fst rows)" "\<forall>x \<in> set rows. fst x < length T \<and> snd x = lt ! fst x"
  shows "for_each (visit_row dir p) rows (stack, T) =
     (case for_each (row_heads dir p) rows (stack, m) of
        Inl e \<Rightarrow> Inl e
      | Inr (s', m') \<Rightarrow>
          Inr (s', map (\<lambda>i. if i \<in> fst ` set rows then set_node (lt ! i) (m' i) (T ! i) else T ! i)
                     [0..<length T]))"
  using assms
proof (induction rows arbitrary: stack T m)
  case Nil
  then show ?case by (simp add: map_nth)
next
  case (Cons x rows)
  obtain cur r where x: "x = (cur, r)" by (cases x)
  from Cons.prems have cur: "cur < length T" and r: "r = lt ! cur"
    and notin: "cur \<notin> fst ` set rows" and dist: "distinct (map fst rows)"
    by (auto simp: x)
  show ?case
  proof (cases "row_heads dir p (stack, m) (cur, r)")
    case (Inl e)
    then show ?thesis using visit_row_factor[OF cur, of dir p stack r m] by (simp add: x)
  next
    case (Inr sm)
    obtain s1 m1 where sm: "sm = (s1, m1)" by (cases sm)
    let ?T1 = "T[cur := set_node r (m1 cur) (T ! cur)]"
    have v: "visit_row dir p (stack, T) (cur, r) = Inr (s1, ?T1)"
      using visit_row_factor[OF cur, of dir p stack r m] Inr sm by simp
    have pre: "\<forall>x \<in> set rows. fst x < length ?T1 \<and> snd x = lt ! fst x"
      using Cons.prems(2) by simp
    note IH = Cons.IH[OF dist pre, of s1 m1]
    show ?thesis
    proof (cases "for_each (row_heads dir p) rows (s1, m1)")
      case (Inl e)
      then show ?thesis using IH v Inr sm by (simp add: x)
    next
      case (Inr sm')
      obtain s' m' where sm': "sm' = (s', m')" by (cases sm')
      have keep: "m' cur = m1 cur"
        using for_each_row_heads_other[OF Inr[unfolded sm'] notin] .
      have "map (\<lambda>i. if i \<in> fst ` set rows then set_node (lt ! i) (m' i) (?T1 ! i) else ?T1 ! i)
              [0..<length ?T1]
          = map (\<lambda>i. if i \<in> fst ` set (x # rows) then set_node (lt ! i) (m' i) (T ! i) else T ! i)
              [0..<length T]"
        using notin cur r keep by (auto simp: x nth_list_update)
      then show ?thesis using IH v Inr sm' \<open>row_heads dir p (stack, m) (cur, r) = Inr sm\<close> sm
        by (simp add: x)
    qed
  qed
qed

lemma rows_fst:
  "map fst (iterrows dir (zip [0..<length lt] lt)) = (if dir = L2R then [0..<length lt] else rev [0..<length lt])"
  by (simp add: iterrows_def rev_map[symmetric])

lemma rows_snd:
  "x \<in> set (iterrows dir (zip [0..<length lt] lt)) \<Longrightarrow> fst x < length lt \<and> snd x = lt ! fst x"
  by (cases x) (auto simp: iterrows_def set_zip split: if_splits)

lemma pass_factor:
  assumes "length t = length lt"
  shows "decoding_step lt t p dir = map_sum id (\<lambda>m. apply_heads lt m t) (pass_heads lt p dir)"
proof -
  let ?rows = "iterrows dir (zip [0..<length lt] lt)"
  have d: "distinct (map fst ?rows)" by (simp add: rows_fst)
  have pre: "\<forall>x \<in> set ?rows. fst x < length t \<and> snd x = lt ! fst x"
    using rows_snd[of _ dir lt] assms by auto
  have img: "fst ` set ?rows = {0..<length lt}"
    using arg_cong[OF rows_fst[of dir lt], of set] by (auto simp del: set_map simp: set_map[symmetric])
  show ?thesis
    unfolding decoding_step_def pass_heads_def pass_sim[OF d pre, of dir p "[]" "\<lambda>_. None"]
    by (auto simp: img apply_heads_def assms split: sum.splits)
qed

lemma for_each_error:
  "for_each f xs s = Inl e \<Longrightarrow> \<exists>a x. x \<in> set xs \<and> f a x = Inl e"
proof (induction xs arbitrary: s)
  case Nil
  then show ?case by simp
next
  case (Cons x xs)
  then show ?case
    by (cases "f s x") (auto, metis)
qed

lemma py_index_error: "py_index n k = Inl e \<Longrightarrow> e = IndexError"
  by (simp add: py_index_def split: if_splits)

lemma merge_at_error: "merge_at brks i = Inl e \<Longrightarrow> e = IndexError"
  by (auto simp: merge_at_def merge_planar_def merge_star_def
      split: sum.splits if_splits dest: py_index_error)

lemma merge_brackets_error: "merge_brackets brks = Inl e \<Longrightarrow> e = IndexError"
  by (auto simp: merge_brackets_def split: sum.splits dest!: for_each_error merge_at_error)

lemma fill_stack_error: "fill_stack a p cur brks st = Inl e \<Longrightarrow> e = IndexError"
proof (induction brks arbitrary: st)
  case Nil
  then show ?case by simp
next
  case (Cons c brks)
  obtain stack ho where st: "st = (stack, ho)" by (cases st)
  from Cons show ?case unfolding st
    by (auto simp: Let_def split: if_splits list.splits)
qed

lemma row_heads_error: "row_heads dir p st x = Inl e \<Longrightarrow> e = IndexError"
  by (cases st; cases x)
    (auto simp: node_brks_def split: sum.splits dest: merge_brackets_error fill_stack_error)

lemma pass_heads_error: "pass_heads lt p dir = Inl e \<Longrightarrow> e = IndexError"
  by (auto simp: pass_heads_def split: sum.splits dest!: for_each_error row_heads_error)

lemma fill_stack_resolving:
  assumes "fill_stack a p cur brks (stack, None) = Inr (s', Some h)"
  shows "\<exists>tok \<in> set brks. str_in p tok"
proof (rule ccontr)
  assume "\<not> (\<exists>tok \<in> set brks. str_in p tok)"
  then have no: "\<forall>tok \<in> set brks. \<not> str_in p tok" by simp
  have "\<And>stack. \<exists>s'. fill_stack a p cur brks (stack, None) = Inr (s', None)"
    using no by (induction brks) (auto simp: Let_def)
  with assms show False by (metis Inr_inject Pair_inject option.distinct(1))
qed

lemma row_heads_resolving:
  assumes "row_heads dir p (stack, m) (cur, r) = Inr (s', m')" "m' cur = Some h"
    "(p, dir) \<in> set fixed_passes"
  shows "(p, dir) \<in> set (resolving_passes r)"
proof -
  from assms(1) obtain brks ho where nb: "node_brks dir p (label r) = Inr brks"
    and fs: "fill_stack (s_append_brk dir p) (s_peek_brk dir p) cur brks (stack, None) = Inr (s', ho)"
    and m': "m' = m(cur := ho)"
    by (auto split: sum.splits)
  from m' assms(2) have "ho = Some h" by simp
  from fill_stack_resolving[OF fs[unfolded this]] obtain tok where
    tok: "tok \<in> set brks" "str_in (s_peek_brk dir p) tok" by blast
  from nb obtain ts where ts: "merge_brackets (label_brks (label r)) = Inr ts"
    and brks: "brks = order_brks dir p ts"
    by (auto simp: node_brks_def split: sum.splits)
  have "set brks = set ts" by (simp add: brks order_brks_def)
  with tok have "list_ex (str_in (s_peek_brk dir p)) ts" by (auto simp: list_ex_iff)
  then show ?thesis using assms(3) by (simp add: resolving_passes_def ts)
qed

lemma pass_heads_resolving:
  assumes "pass_heads lt p dir = Inr m" "m i = Some h" "(p, dir) \<in> set fixed_passes"
  shows "i < length lt \<and> (p, dir) \<in> set (resolving_passes (lt ! i))"
proof -
  let ?rows = "iterrows dir (zip [0..<length lt] lt)"
  let ?P = "\<lambda>sm. \<forall>i h. snd sm i = Some h \<longrightarrow> i < length lt \<and> (p, dir) \<in> set (resolving_passes (lt ! i))"
  from assms(1) obtain stack where
    fe: "for_each (row_heads dir p) ?rows ([], \<lambda>_. None) = Inr (stack, m)"
    by (auto simp: pass_heads_def split: sum.splits)
  have "?P (stack, m)"
  proof (rule for_each_invariant[OF fe, where P = ?P])
    show "?P ([], \<lambda>_. None)" by simp
  next
    fix a x b
    assume x: "x \<in> set ?rows" and a: "?P a" and step: "row_heads dir p a x = Inr b"
    obtain sa ma where a': "a = (sa, ma)" by (cases a)
    obtain cur r where x': "x = (cur, r)" by (cases x)
    obtain sb mb where b': "b = (sb, mb)" by (cases b)
    from rows_snd[OF x] have cur: "cur < length lt" "r = lt ! cur" by (simp_all add: x')
    show "?P b"
    proof (intro allI impI)
      fix i h assume "snd b i = Some h"
      then have mb: "mb i = Some h" by (simp add: b')
      show "i < length lt \<and> (p, dir) \<in> set (resolving_passes (lt ! i))"
      proof (cases "i = cur")
        case True
        with row_heads_resolving[OF step[unfolded a' x' b'] _ assms(3)] mb cur show ?thesis
          by simp
      next
        case False
        with row_heads_other[OF step[unfolded a' x' b']] mb have "ma i = Some h" by simp
        with a show ?thesis by (simp add: a')
      qed
    qed
  qed
  with assms(2) show ?thesis by simp
qed

lemma set_node_commute:
  assumes "a = None \<or> b = None"
  shows "set_node r a (set_node r b n) = set_node r b (set_node r a n)"
  using assms by (auto simp: set_node_def split: option.splits)

lemma length_apply_heads [simp]: "length (apply_heads lt m t) = length lt"
  by (simp add: apply_heads_def)

lemma apply_heads_commute:
  assumes "\<forall>i < length lt. ma i = None \<or> mb i = None"
  shows "apply_heads lt ma (apply_heads lt mb t) = apply_heads lt mb (apply_heads lt ma t)"
  using assms by (auto simp: apply_heads_def intro!: set_node_commute)

section \<open>The order of the four passes\<close>

lemma run_passes_fold:
  assumes "length t = length lt"
  shows "run_passes lt ps t =
     (if \<exists>pd \<in> set ps. isl (pass_heads lt (fst pd) (snd pd)) then Inl IndexError
      else Inr (fold (\<lambda>pd. apply_heads lt (heads_of lt pd)) ps t))"
  using assms
proof (induction ps arbitrary: t)
  case Nil
  then show ?case by (simp add: run_passes_def)
next
  case (Cons pd ps)
  have step: "run_passes lt (pd # ps) t =
      (case decoding_step lt t (fst pd) (snd pd) of Inl e \<Rightarrow> Inl e | Inr t' \<Rightarrow> run_passes lt ps t')"
    by (simp add: run_passes_def split: sum.splits)
  show ?case
  proof (cases "pass_heads lt (fst pd) (snd pd)")
    case (Inl e)
    then have "e = IndexError" by (rule pass_heads_error)
    with Inl show ?thesis
      unfolding step pass_factor[OF Cons.prems] by simp
  next
    case (Inr m)
    have len: "length (apply_heads lt m t) = length lt" by simp
    show ?thesis
      unfolding step pass_factor[OF Cons.prems] using Inr Cons.IH[OF len]
      by (simp add: heads_of_def)
  qed
qed

lemma two_in_distinct:
  assumes "distinct xs" "x \<in> set xs" "y \<in> set xs" "x \<noteq> y"
  shows "2 \<le> length xs"
proof -
  have "card {x, y} \<le> card (set xs)" using assms by (intro card_mono) auto
  then show ?thesis using assms distinct_card[OF assms(1)] by simp
qed

lemma distinct_fixed_passes: "distinct fixed_passes"
  by (simp add: fixed_passes_def)

lemma distinct_resolving_passes: "distinct (resolving_passes r)"
  by (auto simp: resolving_passes_def distinct_fixed_passes split: sum.splits)

lemma heads_of_disjoint:
  assumes single: "\<forall>r \<in> set lt. length (resolving_passes r) \<le> 1"
    and x: "x \<in> set fixed_passes" and y: "y \<in> set fixed_passes" and xy: "x \<noteq> y"
    and i: "i < length lt"
  shows "heads_of lt x i = None \<or> heads_of lt y i = None"
proof (rule ccontr)
  assume "\<not> (heads_of lt x i = None \<or> heads_of lt y i = None)"
  then obtain hx hy where hx: "heads_of lt x i = Some hx" and hy: "heads_of lt y i = Some hy"
    by auto
  from hx obtain mx where mx: "pass_heads lt (fst x) (snd x) = Inr mx" "mx i = Some hx"
    by (auto simp: heads_of_def split: sum.splits)
  from hy obtain my where my: "pass_heads lt (fst y) (snd y) = Inr my" "my i = Some hy"
    by (auto simp: heads_of_def split: sum.splits)
  from pass_heads_resolving[OF mx] x have rx: "x \<in> set (resolving_passes (lt ! i))" by simp
  from pass_heads_resolving[OF my] y have ry: "y \<in> set (resolving_passes (lt ! i))" by simp
  from two_in_distinct[OF distinct_resolving_passes rx ry xy]
  have "2 \<le> length (resolving_passes (lt ! i))" .
  moreover from single i have "length (resolving_passes (lt ! i)) \<le> 1" by simp
  ultimately show False by simp
qed

text \<open>
  C9, as stated: for every label sequence the four passes may run in any order without
  changing the heads. The code does not allow that for every sequence: node 2 below
  carries the resolving markers of two passes, \<^verbatim>\<open>>0\<close> and \<^verbatim>\<open><0\<close>, and the pass that runs
  last decides its head: 3 in the fixed order, 1 when the two passes of plane 0 are
  swapped.
\<close>

theorem pass_order_matters_example:
  "map_sum id (map head)
     (decode [brk_row '''', brk_row ''/0'', brk_row ''>0<0'', brk_row (bslash # ''0'')])
     = Inr [None, None, Some 3, None]
   \<and> map_sum id (map head)
     (run_passes [brk_row '''', brk_row ''/0'', brk_row ''>0<0'', brk_row (bslash # ''0'')]
        [(''0'', R2L), (''0'', L2R), (''1'', L2R), (''1'', R2L)] (empty_tree 4))
     = Inr [None, None, Some 1, None]"
  by code_simp

text \<open>
  C9, amended: for every label sequence in which the merged tokens of each node contain the
  resolving marker of at most one of the four passes (as in the encoder's output, where a
  node has one head), running the four passes in any permutation of the fixed order gives
  what \<^verbatim>\<open>decode\<close> gives: the same tree, heads included, or an exception in both.
\<close>

theorem passes_in_any_order:
  assumes single: "\<forall>r \<in> set lin_tree. length (resolving_passes r) \<le> 1"
    and perm: "mset passes = mset fixed_passes"
  shows "run_passes lin_tree passes (empty_tree (length lin_tree)) = decode lin_tree"
proof -
  let ?t = "empty_tree (length lin_tree)"
  let ?f = "\<lambda>pd. apply_heads lin_tree (heads_of lin_tree pd)"
  have len: "length ?t = length lin_tree" by (simp add: empty_tree_def)
  have sets: "set passes = set fixed_passes" using perm by (rule mset_eq_setD)
  have comm: "?f x \<circ> ?f y = ?f y \<circ> ?f x" if "x \<in> set passes" "y \<in> set passes" for x y
  proof (cases "x = y")
    case True
    then show ?thesis by simp
  next
    case False
    from that sets have "x \<in> set fixed_passes" "y \<in> set fixed_passes" by simp_all
    from heads_of_disjoint[OF single this False]
    have "\<forall>i < length lin_tree. heads_of lin_tree x i = None \<or> heads_of lin_tree y i = None"
      by simp
    from apply_heads_commute[OF this] show ?thesis by (simp add: fun_eq_iff)
  qed
  have "fold ?f passes = fold ?f fixed_passes"
    by (rule fold_multiset_equiv[OF comm perm])
  then show ?thesis
    unfolding decode_def run_passes_fold[OF len] sets by simp
qed

theorem passes_in_any_order_witness:
  "length (resolving_passes (brk_row ''/0'')) \<le> 1
   \<and> length (resolving_passes (brk_row ''>0*<1'')) = 2
   \<and> length (resolving_passes (brk_row ''>0*'')) \<le> 1
   \<and> mset [(''1'', R2L), (''0'', R2L), (''1'', L2R), (''0'', L2R)] = mset fixed_passes
   \<and> run_passes [brk_row ''/0'', brk_row ''>0*'']
         [(''1'', R2L), (''0'', R2L), (''1'', L2R), (''0'', L2R)]
         (empty_tree (length [brk_row ''/0'', brk_row ''>0*'']))
       = decode [brk_row ''/0'', brk_row ''>0*'']"
proof -
  have r0: "length (resolving_passes (brk_row ''/0'')) \<le> 1" by code_simp
  have r1: "length (resolving_passes (brk_row ''>0*'')) \<le> 1" by code_simp
  have r2: "length (resolving_passes (brk_row ''>0*<1'')) = 2" by code_simp
  have single: "\<forall>r \<in> set [brk_row ''/0'', brk_row ''>0*'']. length (resolving_passes r) \<le> 1"
    using r0 r1 by simp
  have perm: "mset [(''1'', R2L), (''0'', R2L), (''1'', L2R), (''0'', L2R)] = mset fixed_passes"
    by (simp add: fixed_passes_def)
  show ?thesis using r0 r1 r2 perm passes_in_any_order [OF single perm] by simp
qed

section \<open>Resolving and pushing within one row\<close>

lemma fill_stack_append:
  "fill_stack a p cur (xs @ ys) st =
     (case fill_stack a p cur xs st of Inl e \<Rightarrow> Inl e | Inr st' \<Rightarrow> fill_stack a p cur ys st')"
proof (induction xs arbitrary: st)
  case Nil
  then show ?case by simp
next
  case (Cons x xs)
  obtain stack ho where st: "st = (stack, ho)" by (cases st)
  show ?case unfolding st by (simp add: Let_def Cons.IH split: list.splits)
qed

lemma fill_stack_pushes:
  assumes "\<forall>t \<in> set ts. \<not> str_in p t"
  shows "fill_stack a p cur ts (stack, ho)
       = Inr (replicate (length (filter (str_in a) ts)) cur @ stack, ho)"
  using assms
proof (induction ts arbitrary: stack)
  case Nil
  then show ?case by simp
next
  case (Cons t ts)
  then show ?case by (simp add: Let_def replicate_app_Cons_same)
qed

lemma fill_stack_resolves:
  assumes "\<forall>t \<in> set ts. \<not> str_in a t"
  shows "fill_stack a p cur ts (stack, ho)
       = (if length stack < length (filter (str_in ''*'') (filter (str_in p) ts))
          then Inl IndexError
          else Inr (drop (length (filter (str_in ''*'') (filter (str_in p) ts))) stack,
                    if filter (str_in p) ts = [] then ho
                    else Some (top0 (drop (length (filter (str_in ''*'')
                                 (butlast (filter (str_in p) ts)))) stack))))"
  using assms
proof (induction ts arbitrary: stack ho)
  case Nil
  then show ?case by simp
next
  case (Cons t ts)
  from Cons.prems have na: "\<not> str_in a t" and rest: "\<forall>t \<in> set ts. \<not> str_in a t" by simp_all
  note IH = Cons.IH[OF rest]
  show ?case
  proof (cases "str_in p t")
    case False
    with na IH show ?thesis by (simp add: Let_def)
  next
    case True
    show ?thesis
    proof (cases "str_in ''*'' t")
      case False
      with True na IH[of stack "Some (top0 stack)"] show ?thesis
        by (simp add: Let_def top0_def)
    next
      case star: True
      show ?thesis
      proof (cases stack)
        case Nil
        with True star na show ?thesis by (simp add: Let_def)
      next
        case (Cons s rest)
        with True star na IH[of rest "Some s"] show ?thesis
          by (simp add: Let_def top0_def)
      qed
    qed
  qed
qed

lemma tokens_split:
  assumes ord: "resolve_first dir p ts"
  shows "\<exists>A B. ts = A @ B \<and> (\<forall>t \<in> set A. \<not> str_in (s_append_brk dir p) t)
                \<and> (\<forall>t \<in> set B. \<not> str_in (s_peek_brk dir p) t)"
proof (intro exI conjI)
  let ?A = "takeWhile (\<lambda>t. \<not> str_in (s_append_brk dir p) t) ts"
  let ?B = "dropWhile (\<lambda>t. \<not> str_in (s_append_brk dir p) t) ts"
  show "ts = ?A @ ?B" by simp
  show "\<forall>t \<in> set ?A. \<not> str_in (s_append_brk dir p) t" by (auto dest: set_takeWhileD)
  show "\<forall>t \<in> set ?B. \<not> str_in (s_peek_brk dir p) t"
  proof
    fix t assume t: "t \<in> set ?B"
    then have ne: "?B \<noteq> []" by (metis empty_iff empty_set)
    have len: "length ts = length ?A + length ?B"
      by (metis length_append takeWhile_dropWhile_id)
    from ne len have k: "length ?A < length ts" by simp
    have opn: "str_in (s_append_brk dir p) (ts ! length ?A)"
      using nth_length_takeWhile[OF k] by simp
    from t obtain m where m: "m < length ?B" "?B ! m = t" by (auto simp: in_set_conv_nth)
    have idx: "ts ! (length ?A + m) = t"
      using m by (metis nth_append_length_plus takeWhile_dropWhile_id)
    have lt: "length ?A + m < length ts" using m(1) len by simp
    show "\<not> str_in (s_peek_brk dir p) t"
    proof
      assume "str_in (s_peek_brk dir p) t"
      with idx have "str_in (s_peek_brk dir p) (ts ! (length ?A + m))" by simp
      with ord lt k opn have "length ?A + m < length ?A"
        unfolding resolve_first_def by blast
      then show False by simp
    qed
  qed
qed

lemma ordered_fill_stack:
  assumes ord: "resolve_first dir p ts"
  shows "fill_stack (s_append_brk dir p) (s_peek_brk dir p) cur ts (stack, None)
       = (if length stack < length (filter (str_in ''*'') (filter (str_in (s_peek_brk dir p)) ts))
          then Inl IndexError
          else Inr (replicate (length (filter (str_in (s_append_brk dir p)) ts)) cur
                      @ drop (length (filter (str_in ''*'') (filter (str_in (s_peek_brk dir p)) ts))) stack,
                    if filter (str_in (s_peek_brk dir p)) ts = [] then None
                    else Some (top0 (drop (length (filter (str_in ''*'')
                                 (butlast (filter (str_in (s_peek_brk dir p)) ts)))) stack))))"
proof -
  from tokens_split[OF ord] obtain A B where AB: "ts = A @ B"
    and A: "\<forall>t \<in> set A. \<not> str_in (s_append_brk dir p) t"
    and B: "\<forall>t \<in> set B. \<not> str_in (s_peek_brk dir p) t" by blast
  have fB: "filter (str_in (s_peek_brk dir p)) B = []" using B by (simp add: filter_empty_conv)
  have fA: "filter (str_in (s_append_brk dir p)) A = []" using A by (simp add: filter_empty_conv)
  show ?thesis
    unfolding AB fill_stack_append fill_stack_resolves[OF A]
    by (simp add: fB fA fill_stack_pushes[OF B])
qed

lemma r2l_resolve_first:
  assumes "node_brks R2L p lbl = Inr ts"
  shows "resolve_first R2L p ts"
  unfolding resolve_first_def using r2l_token_order[OF assms] by blast

lemma visit_row_stack:
  "visit_row dir p (stack, T) (cur, r) =
     (case node_brks dir p (label r) of
        Inl e \<Rightarrow> Inl e
      | Inr brks \<Rightarrow>
          map_sum id (\<lambda>(s', ho'). (s', put_head cur ho' (row_fields T cur r)))
            (fill_stack (s_append_brk dir p) (s_peek_brk dir p) cur brks (stack, None)))"
  using fill_heads_factor[of "s_append_brk dir p" "s_peek_brk dir p" cur _ stack None "row_fields T cur r"]
  by (simp add: put_head_def row_fields_def split: sum.splits)

text \<open>
  C5, amended. Whenever every merged token with the resolving marker of the pass stands
  before every token with its opening marker in the list the pass walks through, which is
  always so in a right-to-left pass (it sorts the tokens), a row is handled in two
  phases: first the resolving tokens are read against the stack as the row found it (the
  head is its top, or 0 when it is empty, and a starred token pops it, raising on the
  empty stack); only then the node is pushed, once per opening token. So the head assigned
  is the top of a suffix of the incoming stack, never the node's own push. A left-to-right
  pass reads the tokens in the order of the fragment, so there this holds only for the
  fragments that are in that order: on the opening token followed by the resolving token
  the node is pushed first and becomes its own head.
\<close>

theorem pass_row_resolve_and_push:
  assumes p: "p \<in> {''0'', ''1''}"
  shows "(node_brks dir p (label r) = Inr ts \<and> (dir = R2L \<or> resolve_first dir p ts) \<longrightarrow>
            visit_row dir p (stack, T) (cur, r) =
              (if length stack
                    < length (filter (str_in ''*'') (filter (str_in (s_peek_brk dir p)) ts))
               then Inl IndexError
               else Inr (replicate (length (filter (str_in (s_append_brk dir p)) ts)) cur
                           @ drop (length (filter (str_in ''*'')
                                     (filter (str_in (s_peek_brk dir p)) ts))) stack,
                         if filter (str_in (s_peek_brk dir p)) ts = [] then row_fields T cur r
                         else update_head (row_fields T cur r) cur
                                (top0 (drop (length (filter (str_in ''*'')
                                         (butlast (filter (str_in (s_peek_brk dir p)) ts))))
                                   stack)))))
       \<and> (node_brks L2R p (label r) = Inr [''/'' @ p, ''>'' @ p] \<longrightarrow>
            visit_row L2R p (stack, T) (cur, r)
              = Inr (cur # stack, update_head (row_fields T cur r) cur cur))"
proof (intro conjI impI)
  assume h: "node_brks dir p (label r) = Inr ts \<and> (dir = R2L \<or> resolve_first dir p ts)"
  then have ts: "node_brks dir p (label r) = Inr ts" by simp
  from h have "resolve_first dir p ts" using r2l_resolve_first by auto
  from ordered_fill_stack[OF this, of cur stack]
  show "visit_row dir p (stack, T) (cur, r) =
              (if length stack
                    < length (filter (str_in ''*'') (filter (str_in (s_peek_brk dir p)) ts))
               then Inl IndexError
               else Inr (replicate (length (filter (str_in (s_append_brk dir p)) ts)) cur
                           @ drop (length (filter (str_in ''*'')
                                     (filter (str_in (s_peek_brk dir p)) ts))) stack,
                         if filter (str_in (s_peek_brk dir p)) ts = [] then row_fields T cur r
                         else update_head (row_fields T cur r) cur
                                (top0 (drop (length (filter (str_in ''*'')
                                         (butlast (filter (str_in (s_peek_brk dir p)) ts))))
                                   stack))))"
    unfolding visit_row_stack ts by (simp add: put_head_def)
next
  assume ts: "node_brks L2R p (label r) = Inr [''/'' @ p, ''>'' @ p]"
  show "visit_row L2R p (stack, T) (cur, r)
      = Inr (cur # stack, update_head (row_fields T cur r) cur cur)"
    unfolding visit_row_stack ts using p
    by (auto simp: put_head_def s_peek_brk_def s_append_brk_def)
qed

theorem pass_row_resolve_and_push_witness:
  "map_sum id (\<lambda>st. (fst st, map head (snd st)))
     (visit_row R2L ''0'' ([2], empty_tree 3) (1, brk_row (bslash # ''0<0*'')))
     = Inr ([1], [None, Some 2, None])
   \<and> map_sum id (\<lambda>st. (fst st, map head (snd st)))
       (visit_row L2R ''0'' ([0], empty_tree 3) (1, brk_row ''>0/0''))
     = Inr ([1, 0], [None, Some 0, None])
   \<and> map_sum id (\<lambda>st. (fst st, map head (snd st)))
       (visit_row L2R ''0'' ([0], empty_tree 3) (1, brk_row ''/0>0''))
     = Inr ([1, 0], [None, Some 1, None])"
proof -
  have p: "''0'' \<in> {''0'', ''1''}" by simp
  have a: "node_brks R2L ''0'' (label (brk_row (bslash # ''0<0*''))) = Inr [''<0*'', bslash # ''0'']"
    by code_simp
  have b: "node_brks L2R ''0'' (label (brk_row ''>0/0'')) = Inr [''>0'', ''/0'']"
    by code_simp
  have ob: "resolve_first L2R ''0'' [''>0'', ''/0'']"
    by (auto simp: resolve_first_def s_peek_brk_def s_append_brk_def less_Suc_eq)
  have c: "node_brks L2R ''0'' (label (brk_row ''/0>0'')) = Inr [''/'' @ ''0'', ''>'' @ ''0'']"
    by code_simp
  note T = pass_row_resolve_and_push[OF p]
  have 1: "visit_row R2L ''0'' ([2], empty_tree 3) (1, brk_row (bslash # ''0<0*''))
      = Inr ([1], update_head (row_fields (empty_tree 3) 1 (brk_row (bslash # ''0<0*''))) 1 2)"
    using T[THEN conjunct1, rule_format, OF conjI[OF a disjI1[OF refl]], of "[2]" "empty_tree 3" 1]
    by (simp add: top0_def s_peek_brk_def s_append_brk_def)
  have 2: "visit_row L2R ''0'' ([0], empty_tree 3) (1, brk_row ''>0/0'')
      = Inr ([1, 0], update_head (row_fields (empty_tree 3) 1 (brk_row ''>0/0'')) 1 0)"
    using T[THEN conjunct1, rule_format, OF conjI[OF b disjI2[OF ob]], of "[0]" "empty_tree 3" 1]
    by (simp add: top0_def s_peek_brk_def s_append_brk_def)
  have 3: "visit_row L2R ''0'' ([0], empty_tree 3) (1, brk_row ''/0>0'')
      = Inr ([1, 0], update_head (row_fields (empty_tree 3) 1 (brk_row ''/0>0'')) 1 1)"
    using T[THEN conjunct2, rule_format, OF c, of "[0]" "empty_tree 3" 1]
    by simp
  have tree: "empty_tree 3 = [empty_node 0, empty_node 1, empty_node 2]"
    by (simp add: empty_tree_def upt_rec numeral_2_eq_2)
  show ?thesis
    unfolding 1 2 3
    by (simp add: tree row_fields_def update_head_def update_relation_def update_upos_def
        update_word_def empty_node_def)
qed

section \<open>Exactly where the decoder returns\<close>


















section \<open>The encoder's markers\<close>

text \<open>
  A marker of plane \<open>p\<close> is a boundary character followed by the plane digit, so it can
  only arise inside a piece that the encoder appends, never across the seam of two pieces:
  every piece starts with a boundary character.
\<close>

lemma str_in_two_append:
  assumes "x \<noteq> c"
  shows "str_in [b, c] (s @ x # xs) = (str_in [b, c] s \<or> str_in [b, c] (x # xs))"
proof (induction s)
  case Nil
  then show ?case by simp
next
  case (Cons y s)
  show ?case
  proof (cases s)
    case Nil
    with assms show ?thesis by auto
  next
    case (Cons z s')
    with Cons.IH show ?thesis by auto
  qed
qed

lemma count_str_two_append:
  assumes "x \<noteq> c"
  shows "count_str [b, c] (s @ x # xs) = count_str [b, c] s + count_str [b, c] (x # xs)"
proof (induction s)
  case Nil
  then show ?case by simp
next
  case (Cons y s)
  show ?case
  proof (cases s)
    case Nil
    with assms show ?thesis by auto
  next
    case (Cons z s')
    with Cons.IH show ?thesis by auto
  qed
qed

lemma str_in_count: "str_in [b, c] s = (0 < count_str [b, c] s)"
  by (induction s) auto

lemma encoding_node_explicit:
  assumes "nid n \<noteq> 0" "head n = Some g"
    and "encoding_node lm rm (brk_chars_of p) labels n = Inr l3"
  shows "nid n < length labels \<and> g < length labels
    \<and> l3 = (labels[nid n := labels ! nid n @ dep_piece lm rm p n g])
             [g := (labels[nid n := labels ! nid n @ dep_piece lm rm p n g]) ! g
                   @ (if \<not> str_in (gov_piece p n g)
                            ((labels[nid n := labels ! nid n @ dep_piece lm rm p n g]) ! g)
                      then gov_piece p n g else [])]"
  using assms
  by (auto simp: encoding_node_def brk_chars_of_def append_at_def dep_piece_def gov_piece_def
      list_update_same_conv
      split: if_splits sum.splits)

lemma str_in_pieces:
  assumes "p \<in> {''0'', ''1''}"
  shows "str_in (bslash # p)
           (s @ (if a then dep_piece lm rm p n g else []) @ (if b then gov_piece p n g else []))
         = (str_in (bslash # p) s \<or> (b \<and> nid n < g))"
    and "str_in (''/'' @ p)
           (s @ (if a then dep_piece lm rm p n g else []) @ (if b then gov_piece p n g else []))
         = (str_in (''/'' @ p) s \<or> (b \<and> \<not> nid n < g))"
  using assms by (auto simp: dep_piece_def gov_piece_def str_in_two_append)

lemma count_str_append_clean:
  assumes "p \<in> {''0'', ''1''}" "t = [] \<or> hd t \<notin> {CHR ''0'', CHR ''1''}"
  shows "count_str (bslash # p) (s @ t) = count_str (bslash # p) s + count_str (bslash # p) t"
    and "count_str (''/'' @ p) (s @ t) = count_str (''/'' @ p) s + count_str (''/'' @ p) t"
proof -
  show "count_str (bslash # p) (s @ t) = count_str (bslash # p) s + count_str (bslash # p) t"
  proof (cases t)
    case Nil
    with assms(1) show ?thesis by auto
  next
    case (Cons x xs)
    with assms show ?thesis by (auto simp: count_str_two_append)
  qed
  show "count_str (''/'' @ p) (s @ t) = count_str (''/'' @ p) s + count_str (''/'' @ p) t"
  proof (cases t)
    case Nil
    with assms(1) show ?thesis by auto
  next
    case (Cons x xs)
    with assms show ?thesis by (auto simp: count_str_two_append)
  qed
qed

lemma piece_counts:
  assumes "p \<in> {''0'', ''1''}"
  shows "count_str (bslash # p) (dep_piece lm rm p n g) = 0"
    and "count_str (''/'' @ p) (dep_piece lm rm p n g) = 0"
    and "count_str (bslash # p) (gov_piece p n g) = (if nid n < g then 1 else 0)"
    and "count_str (''/'' @ p) (gov_piece p n g) = (if nid n < g then 0 else 1)"
  using assms by (auto simp: dep_piece_def gov_piece_def)

lemma piece_hd:
  assumes "p \<in> {''0'', ''1''}"
  shows "hd (dep_piece lm rm p n g) \<notin> {CHR ''0'', CHR ''1''}"
    and "hd (gov_piece p n g) \<notin> {CHR ''0'', CHR ''1''}"
  by (auto simp: dep_piece_def gov_piece_def)

lemma encoding_node_step:
  assumes p: "p \<in> {''0'', ''1''}" and n: "nid n \<noteq> 0" "head n = Some g"
    and enc: "encoding_node lm rm (brk_chars_of p) labels n = Inr l3"
    and m: "marked p G labels"
  shows "length l3 = length labels"
    and "i < length labels \<Longrightarrow>
           l3 ! i = labels ! i @ (if nid n = i then dep_piece lm rm p n g else [])
                      @ (if g = i \<and> (g, nid n < g) \<notin> G then gov_piece p n g else [])"
    and "marked p (insert (g, nid n < g) G) l3"
proof -
  let ?L1 = "labels[nid n := labels ! nid n @ dep_piece lm rm p n g]"
  from encoding_node_explicit[OF n enc]
  have k: "nid n < length labels" and g: "g < length labels"
    and l3: "l3 = ?L1[g := ?L1 ! g @ (if \<not> str_in (gov_piece p n g) (?L1 ! g)
                                      then gov_piece p n g else [])]"
    by blast+
  have L1g: "?L1 ! g = labels ! g @ (if nid n = g then dep_piece lm rm p n g else []) @ (if False then gov_piece p n g else [])"
    using k g by (simp add: nth_list_update)
  have "str_in (gov_piece p n g) (?L1 ! g) = ((g, nid n < g) \<in> G)"
  proof (cases "nid n < g")
    case True
    then have "gov_piece p n g = bslash # p" by (simp add: gov_piece_def)
    then show ?thesis
      unfolding L1g using str_in_pieces(1)[OF p, of "labels ! g" "nid n = g" lm rm n g False] m g True
      by (simp add: marked_def)
  next
    case False
    then have "gov_piece p n g = ''/'' @ p" by (simp add: gov_piece_def)
    then show ?thesis
      unfolding L1g using str_in_pieces(2)[OF p, of "labels ! g" "nid n = g" lm rm n g False] m g False
      by (simp add: marked_def)
  qed
  with l3 have l3': "l3 = ?L1[g := ?L1 ! g @ (if (g, nid n < g) \<notin> G then gov_piece p n g else [])]"
    by simp
  show len: "length l3 = length labels" by (simp add: l3')
  have frag: "l3 ! i = labels ! i @ (if nid n = i then dep_piece lm rm p n g else [])
                      @ (if g = i \<and> (g, nid n < g) \<notin> G then gov_piece p n g else [])"
    if "i < length labels" for i
    using that k g by (auto simp: l3' nth_list_update)
  then show "i < length labels \<Longrightarrow>
           l3 ! i = labels ! i @ (if nid n = i then dep_piece lm rm p n g else [])
                      @ (if g = i \<and> (g, nid n < g) \<notin> G then gov_piece p n g else [])" .
  show "marked p (insert (g, nid n < g) G) l3"
    unfolding marked_def len
  proof (intro allI impI)
    fix j assume j: "j < length labels"
    from m j have mj: "str_in (bslash # p) (labels ! j) \<longleftrightarrow> (j, True) \<in> G"
      "str_in (''/'' @ p) (labels ! j) \<longleftrightarrow> (j, False) \<in> G"
      by (simp_all add: marked_def)
    show "(str_in (bslash # p) (l3 ! j) \<longleftrightarrow> (j, True) \<in> insert (g, nid n < g) G)
        \<and> (str_in (''/'' @ p) (l3 ! j) \<longleftrightarrow> (j, False) \<in> insert (g, nid n < g) G)"
      unfolding frag[OF j] str_in_pieces[OF p] mj by auto
  qed
qed

lemma encoding_node_skip:
  "nid n = 0 \<Longrightarrow> encoding_node lm rm bc labels n = Inr labels"
  by (simp add: encoding_node_def)

lemma encoding_node_head:
  assumes "nid n \<noteq> 0" "encoding_node lm rm bc labels n = Inr l3"
  shows "\<exists>g. head n = Some g"
  using assms by (cases "head n") (simp_all add: encoding_node_def)

lemma encoding_step_fragments_aux:
  assumes p: "p \<in> {''0'', ''1''}"
    and enc: "for_each (encoding_node lm rm (brk_chars_of p)) plane labels = Inr labels'"
    and m: "marked p G labels"
  shows "length labels' = length labels
       \<and> (\<forall>i < length labels. labels' ! i = labels ! i @ spec_fragment lm rm p G plane i)"
  using enc m
proof (induction plane arbitrary: labels G)
  case Nil
  then show ?case by simp
next
  case (Cons n plane)
  from Cons.prems(1) obtain l3 where l3: "encoding_node lm rm (brk_chars_of p) labels n = Inr l3"
    and rest: "for_each (encoding_node lm rm (brk_chars_of p)) plane l3 = Inr labels'"
    by (auto split: sum.splits)
  show ?case
  proof (cases "nid n = 0")
    case True
    with l3 have eq: "l3 = labels" by (simp add: encoding_node_skip)
    from Cons.IH[OF rest[unfolded eq] Cons.prems(2)] True show ?thesis by simp
  next
    case False
    from encoding_node_head[OF False l3] obtain g where g: "head n = Some g" ..
    note st = encoding_node_step[OF p False g l3 Cons.prems(2)]
    from Cons.IH[OF rest st(3)] st(1) st(2) False g show ?thesis by simp
  qed
qed

lemma encoding_node_returns:
  assumes "nid n \<noteq> 0 \<longrightarrow> (\<exists>g. head n = Some g \<and> g < length labels \<and> nid n < length labels)"
  shows "\<exists>l3. encoding_node lm rm bc labels n = Inr l3 \<and> length l3 = length labels"
  using assms by (auto simp: encoding_node_def append_at_def)

lemma encoding_step_returns:
  assumes "\<forall>n \<in> set plane. nid n \<noteq> 0 \<longrightarrow>
             (\<exists>g. head n = Some g \<and> g < length labels \<and> nid n < length labels)"
  shows "\<exists>labels'. for_each (encoding_node lm rm bc) plane labels = Inr labels'"
  using assms
proof (induction plane arbitrary: labels)
  case Nil
  then show ?case by simp
next
  case (Cons n plane)
  from Cons.prems have "nid n \<noteq> 0 \<longrightarrow>
      (\<exists>g. head n = Some g \<and> g < length labels \<and> nid n < length labels)" by simp
  from encoding_node_returns[OF this, of lm rm bc]
  obtain l3 where l3: "encoding_node lm rm bc labels n = Inr l3" "length l3 = length labels"
    by blast
  from Cons.prems l3(2) have "\<forall>n \<in> set plane. nid n \<noteq> 0 \<longrightarrow>
      (\<exists>g. head n = Some g \<and> g < length l3 \<and> nid n < length l3)" by simp
  from Cons.IH[OF this] l3(1) show ?case by simp
qed

lemma spec_fragment_hd:
  assumes "p \<in> {''0'', ''1''}"
  shows "spec_fragment lm rm p G plane i = []
       \<or> hd (spec_fragment lm rm p G plane i) \<notin> {CHR ''0'', CHR ''1''}"
proof (induction plane arbitrary: G)
  case Nil
  then show ?case by simp
next
  case (Cons n plane)
  show ?case
  proof (cases "if nid n = 0 then None else head n")
    case None
    with Cons.IH[of G] show ?thesis by simp
  next
    case (Some g)
    with Cons.IH[of "insert (g, nid n < g) G"] piece_hd[OF assms]
    show ?thesis
      by (auto simp: dep_piece_def gov_piece_def)
  qed
qed

lemma count_str_pieces:
  assumes p: "p \<in> {''0'', ''1''}" and t: "t = [] \<or> hd t \<notin> {CHR ''0'', CHR ''1''}"
  shows "count_str (bslash # p)
           ((if a then dep_piece lm rm p n g else []) @ (if b then gov_piece p n g else []) @ t)
         = (if b \<and> nid n < g then 1 else 0) + count_str (bslash # p) t"
    and "count_str (''/'' @ p)
           ((if a then dep_piece lm rm p n g else []) @ (if b then gov_piece p n g else []) @ t)
         = (if b \<and> \<not> nid n < g then 1 else 0) + count_str (''/'' @ p) t"
proof -
  let ?d = "if a then dep_piece lm rm p n g else []"
  let ?g = "if b then gov_piece p n g else []"
  have gne: "gov_piece p n g \<noteq> []" by (simp add: gov_piece_def)
  have hg: "?g @ t = [] \<or> hd (?g @ t) \<notin> {CHR ''0'', CHR ''1''}"
    using t piece_hd(2)[OF p, of n g] gne by (cases b) simp_all
  have e0: "count_str (bslash # p) [] = 0" "count_str (''/'' @ p) [] = 0" by simp_all
  show "count_str (bslash # p) (?d @ ?g @ t)
         = (if b \<and> nid n < g then 1 else 0) + count_str (bslash # p) t"
    unfolding count_str_append_clean(1)[OF p hg] count_str_append_clean(1)[OF p t]
    using piece_counts[OF p] e0 by (cases a; cases b) simp_all
  show "count_str (''/'' @ p) (?d @ ?g @ t)
         = (if b \<and> \<not> nid n < g then 1 else 0) + count_str (''/'' @ p) t"
    unfolding count_str_append_clean(2)[OF p hg] count_str_append_clean(2)[OF p t]
    using piece_counts[OF p] e0 by (cases a; cases b) simp_all
qed

lemma spec_fragment_count:
  assumes p: "p \<in> {''0'', ''1''}"
  shows "count_str (bslash # p) (spec_fragment lm rm p G plane i)
           = (if (i, True) \<notin> G \<and> governs plane i True then 1 else 0)
       \<and> count_str (''/'' @ p) (spec_fragment lm rm p G plane i)
           = (if (i, False) \<notin> G \<and> governs plane i False then 1 else 0)"
proof (induction plane arbitrary: G)
  case Nil
  then show ?case by (simp add: governs_def)
next
  case (Cons n plane)
  show ?case
  proof (cases "if nid n = 0 then None else head n")
    case None
    then have "governs (n # plane) i b = governs plane i b" for b
      by (auto simp: governs_def split: if_splits)
    with None Cons.IH[of G] show ?thesis by simp
  next
    case (Some g)
    then have n: "nid n \<noteq> 0" "head n = Some g" by (auto split: if_splits)
    have gv: "governs (n # plane) i b = ((g = i \<and> (nid n < g) = b) \<or> governs plane i b)" for b
      using n by (auto simp: governs_def)
    note hd = spec_fragment_hd[OF p, of lm rm "insert (g, nid n < g) G" plane i]
    have sf: "spec_fragment lm rm p G (n # plane) i =
        (if nid n = i then dep_piece lm rm p n g else [])
          @ (if g = i \<and> (g, nid n < g) \<notin> G then gov_piece p n g else [])
          @ spec_fragment lm rm p (insert (g, nid n < g) G) plane i"
      using Some by simp
    show ?thesis
      unfolding sf count_str_pieces[OF p hd] gv
      using Cons.IH[of "insert (g, nid n < g) G"] by auto
  qed
qed

lemma unmarked_count:
  assumes "p \<in> {''0'', ''1''}"
  shows "\<not> str_in (bslash # p) s \<Longrightarrow> count_str (bslash # p) s = 0"
    and "\<not> str_in (''/'' @ p) s \<Longrightarrow> count_str (''/'' @ p) s = 0"
  using assms str_in_count[of bslash _ s] str_in_count[of "CHR ''/''" _ s] by auto

text \<open>
  Claim C6. One call of \<open>encoding_step\<close> on a plane \<open>p\<close> whose nodes other than node 0 all
  have a head, with ids and heads inside the label list, and on labels that hold no governor
  marker of plane \<open>p\<close> yet (the encoder starts from empty fragments, and plane 0 writes no
  marker of plane 1), returns, keeps the number of fragments, and adds to the fragment of every
  node \<open>i\<close> exactly what the description says: for each arc of the plane in order, the
  dependent marker \<^verbatim>\<open><p\<close> or \<^verbatim>\<open>>p\<close> at the dependent, directly followed by the star when the
  dependent is flagged, and the governor marker \<^verbatim>\<open>\p\<close> or \<^verbatim>\<open>/p\<close> at the governor only for the
  first arc of the plane with this governor and direction. So the resulting fragment of \<open>i\<close>
  holds the marker \<^verbatim>\<open>\p\<close> exactly once when \<open>i\<close> governs a left arc of the plane and not at all
  otherwise, and likewise \<^verbatim>\<open>/p\<close> for right arcs, however many dependents share the governor.
\<close>

theorem encoding_step_markers:
  assumes p: "p \<in> {''0'', ''1''}"
    and arcs: "\<forall>n \<in> set plane. nid n \<noteq> 0 \<longrightarrow>
        (\<exists>g. head n = Some g \<and> g < length labels_brk \<and> nid n < length labels_brk)"
    and fresh: "\<forall>s \<in> set labels_brk. \<not> str_in (bslash # p) s \<and> \<not> str_in (''/'' @ p) s"
  shows "\<exists>labels'. encoding_step lm rm plane labels_brk (brk_chars_of p) = Inr labels'
      \<and> length labels' = length labels_brk
      \<and> (\<forall>i < length labels_brk.
            labels' ! i = labels_brk ! i @ spec_fragment lm rm p {} plane i
          \<and> count_str (bslash # p) (labels' ! i) = (if governs plane i True then 1 else 0)
          \<and> count_str (''/'' @ p) (labels' ! i) = (if governs plane i False then 1 else 0))"
proof -
  from encoding_step_returns[OF arcs, of lm rm "brk_chars_of p"]
  obtain labels' where enc: "for_each (encoding_node lm rm (brk_chars_of p)) plane labels_brk = Inr labels'"
    by blast
  from fresh have m: "marked p {} labels_brk" by (simp add: marked_def)
  from encoding_step_fragments_aux[OF p enc m]
  have len: "length labels' = length labels_brk"
    and frag: "\<And>i. i < length labels_brk \<Longrightarrow>
        labels' ! i = labels_brk ! i @ spec_fragment lm rm p {} plane i"
    by simp_all
  have cnt: "count_str (bslash # p) (labels' ! i) = (if governs plane i True then 1 else 0)
      \<and> count_str (''/'' @ p) (labels' ! i) = (if governs plane i False then 1 else 0)"
    if i: "i < length labels_brk" for i
  proof -
    from fresh i have "\<not> str_in (bslash # p) (labels_brk ! i)" "\<not> str_in (''/'' @ p) (labels_brk ! i)"
      by simp_all
    then have z: "count_str (bslash # p) (labels_brk ! i) = 0" "count_str (''/'' @ p) (labels_brk ! i) = 0"
      using unmarked_count[OF p] by blast+
    note hd = spec_fragment_hd[OF p, of lm rm "{}" plane i]
    show ?thesis
      unfolding frag[OF i] count_str_append_clean[OF p hd] z
      using spec_fragment_count[OF p, of lm rm "{}" plane i] by simp
  qed
  from enc len frag cnt show ?thesis by (simp add: encoding_step_def)
qed

theorem encoding_step_markers_witness:
  "\<exists>labels'.
     encoding_step (\<lambda>n. nid n = 1) (\<lambda>n. nid n = 3)
       [arc_node 0 0, arc_node 1 3, arc_node 2 3, arc_node 3 0] ['''', '''', '''', '''']
       (brk_chars_of ''0'') = Inr labels'
     \<and> labels' ! 0 = ''/0'' \<and> labels' ! 1 = ''<0*'' \<and> labels' ! 2 = ''<0''
     \<and> labels' ! 3 = bslash # ''0>0*''
     \<and> count_str (bslash # ''0'') (labels' ! 3) = 1"
proof -
  let ?plane = "[arc_node 0 0, arc_node 1 3, arc_node 2 3, arc_node 3 0]"
  let ?labels = "['''', '''', '''', ''''] :: string list"
  let ?lm = "\<lambda>n :: D_Node. nid n = 1" and ?rm = "\<lambda>n :: D_Node. nid n = 3"
  have p: "''0'' \<in> {''0'', ''1''}" by simp
  have arcs: "\<forall>n \<in> set ?plane. nid n \<noteq> 0 \<longrightarrow>
        (\<exists>g. head n = Some g \<and> g < length ?labels \<and> nid n < length ?labels)"
    by (simp add: arc_node_def empty_node_def)
  have fresh: "\<forall>s \<in> set ?labels. \<not> str_in (bslash # ''0'') s \<and> \<not> str_in (''/'' @ ''0'') s"
    by simp
  have s0: "spec_fragment ?lm ?rm ''0'' {} ?plane 0 = ''/0''"
    by (simp add: arc_node_def empty_node_def dep_piece_def gov_piece_def)
  have s1: "spec_fragment ?lm ?rm ''0'' {} ?plane 1 = ''<0*''"
    by (simp add: arc_node_def empty_node_def dep_piece_def gov_piece_def)
  have s2: "spec_fragment ?lm ?rm ''0'' {} ?plane 2 = ''<0''"
    by (simp add: arc_node_def empty_node_def dep_piece_def gov_piece_def)
  have s3: "spec_fragment ?lm ?rm ''0'' {} ?plane 3 = bslash # ''0>0*''"
    by (simp add: arc_node_def empty_node_def dep_piece_def gov_piece_def)
  have g3: "governs ?plane 3 True"
    by (simp add: governs_def arc_node_def empty_node_def)
  from encoding_step_markers[OF p arcs fresh, of ?lm ?rm]
  obtain labels' where r: "encoding_step ?lm ?rm ?plane ?labels (brk_chars_of ''0'') = Inr labels'
      \<and> length labels' = length ?labels
      \<and> (\<forall>i < length ?labels.
            labels' ! i = ?labels ! i @ spec_fragment ?lm ?rm ''0'' {} ?plane i
          \<and> count_str (bslash # ''0'') (labels' ! i) = (if governs ?plane i True then 1 else 0)
          \<and> count_str (''/'' @ ''0'') (labels' ! i) = (if governs ?plane i False then 1 else 0))" ..
  note enc = conjunct1[OF r]
  note all = conjunct2[OF conjunct2[OF r], rule_format]
  have f0: "labels' ! 0 = ''/0''" using all[of 0] unfolding s0 by simp
  have f1: "labels' ! 1 = ''<0*''" using all[of 1] unfolding s1 by simp
  have f2: "labels' ! 2 = ''<0''" using all[of 2] unfolding s2 by simp
  have f3: "labels' ! 3 = bslash # ''0>0*''" using all[of 3] unfolding s3 by simp
  have i3: "3 < length ?labels" by simp
  have c3: "count_str (bslash # ''0'') (labels' ! 3) = 1"
    using conjunct1[OF conjunct2[OF all[OF i3]]] g3 by (simp only: if_True)
  from enc f0 f1 f2 f3 c3 show ?thesis by blast
qed

section \<open>Round trip\<close>

text \<open>
  The stack of a pass over rows whose tokens are the encoder's: along a visiting order in
  which every governor is met before its dependents, with no two arcs crossing and the
  star on the last dependent of each governor, the scan ends with an empty stack and has
  given every dependent its governor.
\<close>

lemma scan_prefix:
  fixes gv :: "nat \<Rightarrow> nat option"
  assumes dist: "distinct xs"
    and before: "\<And>ys d zs g. xs = ys @ d # zs \<Longrightarrow> gv d = Some g \<Longrightarrow> g \<in> set ys"
    and after: "\<And>ys g zs d. xs = ys @ g # zs \<Longrightarrow> gv d = Some g \<Longrightarrow> d \<in> set zs"
    and nocross: "\<And>ys1 g ys2 g' ys3 x zs d'.
        xs = ys1 @ g # ys2 @ g' # ys3 @ x # zs \<Longrightarrow> gv x = Some g \<Longrightarrow> gv d' = Some g'
          \<Longrightarrow> d' \<in> set zs \<Longrightarrow> False"
    and star: "\<And>ys x zs g. xs = ys @ x # zs \<Longrightarrow> gv x = Some g
          \<Longrightarrow> star x = (\<forall>d \<in> set zs. gv d \<noteq> Some g)"
    and gov: "\<And>x. x \<in> set xs \<Longrightarrow> gov x = (\<exists>d. gv d = Some x)"
  shows "xs = ys @ zs \<Longrightarrow>
     for_each (\<lambda>st i. row_act (map_option (\<lambda>_. star i) (gv i)) (gov i) i st) ys ([], \<lambda>_. None)
       = Inr (rev (filter (\<lambda>g. \<exists>d \<in> set zs. gv d = Some g) ys),
              \<lambda>i. if i \<in> set ys then gv i else None)"
proof (induction ys arbitrary: zs rule: rev_induct)
  case Nil
  then show ?case by simp
next
  case (snoc x ys)
  let ?f = "\<lambda>st i. row_act (map_option (\<lambda>_. star i) (gv i)) (gov i) i st"
  let ?O = "\<lambda>g. \<exists>d \<in> set (x # zs). gv d = Some g"
  let ?O' = "\<lambda>g. \<exists>d \<in> set zs. gv d = Some g"
  let ?m = "\<lambda>i. if i \<in> set ys then gv i else None"
  from snoc.prems have xs: "xs = ys @ x # zs" by simp
  from snoc.IH[OF xs]
  have IH: "for_each ?f ys ([], \<lambda>_. None) = Inr (rev (filter ?O ys), ?m)" .
  have x_notin: "x \<notin> set ys" "x \<notin> set zs" using dist xs by auto
  have govx: "gov x = ?O' x"
  proof -
    have "gov x = (\<exists>d. gv d = Some x)" using gov[of x] xs by simp
    also have "\<dots> = ?O' x" using after[OF xs] by blast
    finally show ?thesis .
  qed
  have m': "(?m)(x := gv x) = (\<lambda>i. if i \<in> set (ys @ [x]) then gv i else None)"
    by (auto simp: fun_eq_iff)
  have step: "?f (rev (filter ?O ys), ?m) x
      = Inr (rev (filter ?O' (ys @ [x])), \<lambda>i. if i \<in> set (ys @ [x]) then gv i else None)"
  proof (cases "gv x")
    case None
    then have same: "\<And>g. ?O g = ?O' g" by auto
    show ?thesis
      using None govx m' by (simp add: row_act_def same)
  next
    case (Some gx)
    from before[OF xs Some] have "gx \<in> set ys" .
    then obtain ys1 ys2 where ys: "ys = ys1 @ gx # ys2" by (auto dest: split_list)
    have gx_notin: "gx \<notin> set ys1" "gx \<notin> set ys2" using dist xs ys by auto
    have closed: "\<not> ?O g'" if g': "g' \<in> set ys2" for g'
    proof
      assume "?O g'"
      then obtain d' where d': "d' \<in> set (x # zs)" "gv d' = Some g'" by blast
      have "d' \<noteq> x" using d'(2) Some g' gx_notin by auto
      with d'(1) have dz: "d' \<in> set zs" by simp
      from g' obtain a b where "ys2 = a @ g' # b" by (auto dest: split_list)
      with xs ys have "xs = ys1 @ gx # a @ g' # b @ x # zs" by simp
      from nocross[OF this Some d'(2) dz] show False .
    qed
    then have f2: "filter ?O ys2 = []" "filter ?O' ys2 = []" by (auto simp: filter_empty_conv)
    have Ogx: "?O gx" using Some by auto
    have same1: "filter ?O ys1 = filter ?O' ys1"
    proof (rule filter_cong[OF refl])
      fix g assume "g \<in> set ys1"
      then have "g \<noteq> gx" using gx_notin by auto
      then show "?O g = ?O' g" using Some by auto
    qed
    have st: "star x = (\<not> ?O' gx)" using star[OF xs Some] by auto
    have S: "rev (filter ?O ys) = gx # rev (filter ?O' ys1)"
      using Ogx f2 same1 by (simp add: ys)
    have T: "rev (filter ?O' (ys @ [x]))
        = (if gov x then [x] else []) @ (if star x then rev (filter ?O' ys1) else gx # rev (filter ?O' ys1))"
      using f2 st govx by (simp add: ys)
    show ?thesis
      unfolding S T using Some m' by (simp add: row_act_def)
  qed
  show ?case
    unfolding for_each_append IH using step by simp
qed

lemma scan_heads:
  fixes gv :: "nat \<Rightarrow> nat option"
  assumes "distinct xs"
    and "\<And>ys d zs g. xs = ys @ d # zs \<Longrightarrow> gv d = Some g \<Longrightarrow> g \<in> set ys"
    and "\<And>ys g zs d. xs = ys @ g # zs \<Longrightarrow> gv d = Some g \<Longrightarrow> d \<in> set zs"
    and "\<And>ys1 g ys2 g' ys3 x zs d'.
        xs = ys1 @ g # ys2 @ g' # ys3 @ x # zs \<Longrightarrow> gv x = Some g \<Longrightarrow> gv d' = Some g'
          \<Longrightarrow> d' \<in> set zs \<Longrightarrow> False"
    and "\<And>ys x zs g. xs = ys @ x # zs \<Longrightarrow> gv x = Some g
          \<Longrightarrow> star x = (\<forall>d \<in> set zs. gv d \<noteq> Some g)"
    and "\<And>x. x \<in> set xs \<Longrightarrow> gov x = (\<exists>d. gv d = Some x)"
  shows "for_each (\<lambda>st i. row_act (map_option (\<lambda>_. star i) (gv i)) (gov i) i st) xs ([], \<lambda>_. None)
       = Inr ([], \<lambda>i. if i \<in> set xs then gv i else None)"
  using scan_prefix[where zs = "[]" and ys = xs and xs = xs and gv = gv and star = star and gov = gov,
      OF assms] by simp

lemma sorted_wrt_split:
  assumes "sorted_wrt prec (ys @ x # zs)"
  shows "\<forall>y \<in> set ys. prec y x" and "\<forall>z \<in> set zs. prec x z"
  using assms by (auto simp: sorted_wrt_append)

lemma sorted_wrt_distinct:
  assumes "sorted_wrt prec xs" "\<And>a. \<not> prec a a"
  shows "distinct xs"
  using assms by (induction xs) auto

lemma scan_sorted:
  fixes gv :: "nat \<Rightarrow> nat option"
  assumes sorted: "sorted_wrt prec xs"
    and irr: "\<And>a. \<not> prec a a"
    and trans: "\<And>a b c. prec a b \<Longrightarrow> prec b c \<Longrightarrow> prec a c"
    and arcs: "\<And>d g. gv d = Some g \<Longrightarrow> prec g d \<and> d \<in> set xs \<and> g \<in> set xs"
    and nocross: "\<And>x g d' g'. gv x = Some g \<Longrightarrow> gv d' = Some g'
          \<Longrightarrow> prec g g' \<Longrightarrow> prec g' x \<Longrightarrow> prec x d' \<Longrightarrow> False"
    and star: "\<And>x g. x \<in> set xs \<Longrightarrow> gv x = Some g
          \<Longrightarrow> star x = (\<forall>d. gv d = Some g \<longrightarrow> \<not> prec x d)"
    and gov: "\<And>x. x \<in> set xs \<Longrightarrow> gov x = (\<exists>d. gv d = Some x)"
  shows "for_each (\<lambda>st i. row_act (map_option (\<lambda>_. star i) (gv i)) (gov i) i st) xs ([], \<lambda>_. None)
       = Inr ([], \<lambda>i. if i \<in> set xs then gv i else None)"
proof (rule scan_heads)
  show "distinct xs" using sorted irr by (rule sorted_wrt_distinct)
next
  fix ys d zs g assume xs: "xs = ys @ d # zs" and g: "gv d = Some g"
  from sorted_wrt_split[OF sorted[unfolded xs]]
  have lo: "\<forall>y \<in> set ys. prec y d" and hi: "\<forall>z \<in> set zs. prec d z" .
  from arcs[OF g] have l: "prec g d" and "g \<in> set xs" by simp_all
  then have "g \<in> set ys \<or> g = d \<or> g \<in> set zs" unfolding xs by auto
  then show "g \<in> set ys" using l hi irr trans by blast
next
  fix ys g zs d assume xs: "xs = ys @ g # zs" and g: "gv d = Some g"
  from sorted_wrt_split[OF sorted[unfolded xs]]
  have lo: "\<forall>y \<in> set ys. prec y g" and hi: "\<forall>z \<in> set zs. prec g z" .
  from arcs[OF g] have l: "prec g d" and "d \<in> set xs" by simp_all
  then have "d \<in> set ys \<or> d = g \<or> d \<in> set zs" unfolding xs by auto
  then show "d \<in> set zs" using l lo irr trans by blast
next
  fix ys1 g ys2 g' ys3 x zs d'
  assume xs: "xs = ys1 @ g # ys2 @ g' # ys3 @ x # zs"
    and 1: "gv x = Some g" and 2: "gv d' = Some g'" and 3: "d' \<in> set zs"
  from sorted have "prec g g'" "prec g' x" "prec x d'"
    using 3 unfolding xs by (auto simp: sorted_wrt_append)
  from nocross[OF 1 2 this] show False .
next
  fix ys x zs g assume xs: "xs = ys @ x # zs" and g: "gv x = Some g"
  from sorted_wrt_split[OF sorted[unfolded xs]]
  have lo: "\<forall>y \<in> set ys. prec y x" and hi: "\<forall>z \<in> set zs. prec x z" .
  have "x \<in> set xs" using xs by simp
  from star[OF this g] have st: "star x = (\<forall>d. gv d = Some g \<longrightarrow> \<not> prec x d)" .
  show "star x = (\<forall>d \<in> set zs. gv d \<noteq> Some g)"
  proof
    assume "star x"
    with st hi show "\<forall>d \<in> set zs. gv d \<noteq> Some g" by blast
  next
    assume r: "\<forall>d \<in> set zs. gv d \<noteq> Some g"
    have "\<not> prec x d" if d: "gv d = Some g" for d
    proof
      assume l: "prec x d"
      from arcs[OF d] have "d \<in> set xs" by simp
      then have "d \<in> set ys \<or> d = x \<or> d \<in> set zs" unfolding xs by auto
      then show False using l lo irr trans r d by blast
    qed
    with st show "star x" by blast
  qed
next
  fix x assume "x \<in> set xs"
  then show "gov x = (\<exists>d. gv d = Some x)" by (rule gov)
qed

text \<open>The tokens the encoder writes for a node, and what each pass finds among them.\<close>

lemma concat_arc_tokens: "concat (arc_tokens lm rm p seen plane i) = spec_fragment lm rm p seen plane i"
  by (induction plane arbitrary: seen) (auto split: option.splits)

lemma plane_cases: "p \<in> {''0'', ''1''} \<Longrightarrow> (p = ''0'' \<Longrightarrow> P) \<Longrightarrow> (p = ''1'' \<Longrightarrow> P) \<Longrightarrow> P"
  by auto

lemma dep_piece_peek:
  assumes "p \<in> {''0'', ''1''}" "q \<in> {''0'', ''1''}"
  shows "str_in (s_peek_brk dir q) (dep_piece lm rm p n g) = (q = p \<and> dmatch dir n g)"
  using assms by (cases dir) (auto simp: s_peek_brk_def dep_piece_def dmatch_def)

lemma dep_piece_app:
  assumes "p \<in> {''0'', ''1''}" "q \<in> {''0'', ''1''}"
  shows "\<not> str_in (s_append_brk dir q) (dep_piece lm rm p n g)"
  using assms by (cases dir) (auto simp: s_append_brk_def dep_piece_def)

lemma dep_piece_star:
  "p \<in> {''0'', ''1''} \<Longrightarrow> str_in ''*'' (dep_piece lm rm p n g) = (if nid n < g then lm n else rm n)"
  by (auto simp: dep_piece_def)

lemma gov_piece_peek:
  assumes "p \<in> {''0'', ''1''}" "q \<in> {''0'', ''1''}"
  shows "\<not> str_in (s_peek_brk dir q) (gov_piece p n g)"
  using assms by (cases dir) (auto simp: s_peek_brk_def gov_piece_def)

lemma gov_piece_app:
  assumes "p \<in> {''0'', ''1''}" "q \<in> {''0'', ''1''}"
  shows "str_in (s_append_brk dir q) (gov_piece p n g) = (q = p \<and> dmatch dir n g)"
    and "dmatch dir n g \<Longrightarrow> gov_piece p n g = s_append_brk dir p"
  using assms by (cases dir; auto simp: s_append_brk_def gov_piece_def dmatch_def)+

lemma piece_tokens:
  assumes "p \<in> {''0'', ''1''}"
  shows "brk_token (dep_piece lm rm p n g)" "brk_token (gov_piece p n g)"
  using assms by (auto simp: dep_piece_def gov_piece_def boundary_def)

lemma arc_tokens_brk:
  assumes "p \<in> {''0'', ''1''}"
  shows "\<forall>tok \<in> set (arc_tokens lm rm p seen plane i). brk_token tok"
  using piece_tokens[OF assms]
  by (induction plane arbitrary: seen) (auto split: option.splits)

lemma arc_tokens_other:
  assumes p: "p \<in> {''0'', ''1''}" and q: "q \<in> {''0'', ''1''}" and qp: "q \<noteq> p"
  shows "filter (str_in (s_peek_brk dir q)) (arc_tokens lm rm p seen plane i) = []"
    and "filter (str_in (s_append_brk dir q)) (arc_tokens lm rm p seen plane i) = []"
proof -
  have "\<forall>tok \<in> set (arc_tokens lm rm p seen plane i).
          \<not> str_in (s_peek_brk dir q) tok \<and> \<not> str_in (s_append_brk dir q) tok"
  proof (induction plane arbitrary: seen)
    case Nil
    then show ?case by simp
  next
    case (Cons n plane)
    show ?case
    proof (cases "if nid n = 0 then None else head n")
      case None
      with Cons.IH[of seen] show ?thesis by simp
    next
      case (Some g)
      with Cons.IH[of "insert (g, nid n < g) seen"] qp show ?thesis
        by (auto simp: dep_piece_peek[OF p q] gov_piece_peek[OF p q] dep_piece_app[OF p q]
            gov_piece_app(1)[OF p q])
    qed
  qed
  then show "filter (str_in (s_peek_brk dir q)) (arc_tokens lm rm p seen plane i) = []"
    and "filter (str_in (s_append_brk dir q)) (arc_tokens lm rm p seen plane i) = []"
    by (simp_all add: filter_empty_conv)
qed

lemma arc_tokens_peek:
  assumes p: "p \<in> {''0'', ''1''}"
  shows "filter (str_in (s_peek_brk dir p)) (arc_tokens lm rm p seen plane i)
       = map (dep_token lm rm p) (dep_nodes dir plane i)"
proof (induction plane arbitrary: seen)
  case Nil
  then show ?case by (simp add: dep_nodes_def)
next
  case (Cons n plane)
  show ?case
  proof (cases "if nid n = 0 then None else head n")
    case None
    then have "dep_nodes dir (n # plane) i = dep_nodes dir plane i"
      by (auto simp: dep_nodes_def split: if_splits)
    with None Cons.IH[of seen] show ?thesis by simp
  next
    case (Some g)
    then have n: "nid n \<noteq> 0" "head n = Some g" by (auto split: if_splits)
    have dn: "dep_nodes dir (n # plane) i
        = (if nid n = i \<and> dmatch dir n g then [n] else []) @ dep_nodes dir plane i"
      using n by (simp add: dep_nodes_def)
    have dt: "dep_token lm rm p n = dep_piece lm rm p n g" using n by (simp add: dep_token_def)
    show ?thesis
      using Some Cons.IH[of "insert (g, nid n < g) seen"]
      by (simp add: dn dt dep_piece_peek[OF p p] gov_piece_peek[OF p p])
  qed
qed

lemma dmatch_left: "dmatch dir n g = ((nid n < g) = (dir = R2L))"
  by (cases dir) (simp_all add: dmatch_def)

lemma arc_tokens_app:
  assumes p: "p \<in> {''0'', ''1''}"
  shows "filter (str_in (s_append_brk dir p)) (arc_tokens lm rm p seen plane i)
       = (if (i, dir = R2L) \<notin> seen \<and> governs plane i (dir = R2L)
          then [s_append_brk dir p] else [])"
proof (induction plane arbitrary: seen)
  case Nil
  then show ?case by (simp add: governs_def)
next
  case (Cons n plane)
  show ?case
  proof (cases "if nid n = 0 then None else head n")
    case None
    then have "governs (n # plane) i b = governs plane i b" for b
      by (auto simp: governs_def split: if_splits)
    with None Cons.IH[of seen] show ?thesis by simp
  next
    case (Some g)
    then have n: "nid n \<noteq> 0" "head n = Some g" by (auto split: if_splits)
    have gv: "governs (n # plane) i b = ((g = i \<and> (nid n < g) = b) \<or> governs plane i b)" for b
      using n by (auto simp: governs_def)
    have toks: "arc_tokens lm rm p seen (n # plane) i
        = (if nid n = i then [dep_piece lm rm p n g] else [])
          @ (if g = i \<and> (g, nid n < g) \<notin> seen then [gov_piece p n g] else [])
          @ arc_tokens lm rm p (insert (g, nid n < g) seen) plane i"
      using Some by simp
    note IH = Cons.IH[of "insert (g, nid n < g) seen"]
    show ?thesis
    proof (cases "dmatch dir n g")
      case True
      then have gp: "gov_piece p n g = s_append_brk dir p" by (rule gov_piece_app(2)[OF p p])
      have ap: "str_in (s_append_brk dir p) (s_append_brk dir p)"
        using gov_piece_app(1)[OF p p, of dir n g] True gp by simp
      from True have l: "(nid n < g) = (dir = R2L)" by (simp add: dmatch_left)
      show ?thesis
        unfolding toks using IH gp ap l
        by (auto simp: gv dep_piece_app[OF p p])
    next
      case False
      then have l: "(nid n < g) \<noteq> (dir = R2L)" by (simp add: dmatch_left)
      have na: "\<not> str_in (s_append_brk dir p) (gov_piece p n g)"
        using gov_piece_app(1)[OF p p, of dir n g] False by simp
      show ?thesis
        unfolding toks using IH l na
        by (auto simp: gv dep_piece_app[OF p p])
    qed
  qed
qed

lemma arc_tokens_app_eq:
  assumes p: "p \<in> {''0'', ''1''}" and q: "q \<in> {''0'', ''1''}"
    and tok: "tok \<in> set (arc_tokens lm rm p seen plane i)"
    and ap: "str_in (s_append_brk dir q) tok"
  shows "tok = s_append_brk dir q \<and> \<not> str_in (s_peek_brk dir q) tok"
  using tok ap
proof (induction plane arbitrary: seen)
  case Nil
  then show ?case by simp
next
  case (Cons n plane)
  show ?case
  proof (cases "if nid n = 0 then None else head n")
    case None
    with Cons show ?thesis by simp
  next
    case (Some g)
    from Cons.prems(1) Some
    consider "tok = dep_piece lm rm p n g" | "tok = gov_piece p n g"
      | "tok \<in> set (arc_tokens lm rm p (insert (g, nid n < g) seen) plane i)"
      by (auto split: if_splits)
    then show ?thesis
    proof cases
      case 1
      with Cons.prems(2) dep_piece_app[OF p q] show ?thesis by simp
    next
      case 2
      with Cons.prems(2) gov_piece_app[OF p q] gov_piece_peek[OF p q] show ?thesis by auto
    next
      case 3
      from Cons.IH[OF 3 Cons.prems(2)] show ?thesis .
    qed
  qed
qed

lemma split_resolve_first:
  assumes "ts = A @ B" "\<forall>t \<in> set A. \<not> str_in (s_append_brk dir p) t"
    and "\<forall>t \<in> set B. \<not> str_in (s_peek_brk dir p) t"
  shows "resolve_first dir p ts"
  unfolding resolve_first_def
proof (intro allI impI)
  fix i j assume i: "i < length ts" and j: "j < length ts"
    and h: "str_in (s_peek_brk dir p) (ts ! i) \<and> str_in (s_append_brk dir p) (ts ! j)"
  have "i < length A"
  proof (rule ccontr)
    assume "\<not> i < length A"
    then have "ts ! i \<in> set B" using i assms(1) by (auto simp: nth_append)
    with assms(3) h show False by blast
  qed
  moreover have "\<not> j < length A"
  proof
    assume "j < length A"
    then have "ts ! j \<in> set A" using assms(1) by (auto simp: nth_append)
    with assms(2) h show False by blast
  qed
  ultimately show "i < j" by simp
qed

lemma dep_nodes_later:
  assumes "\<forall>m \<in> set plane. i < nid m"
  shows "dep_nodes dir plane i = []"
  using assms by (auto simp: dep_nodes_def filter_empty_conv)

lemma l2r_tokens_split:
  assumes p: "p \<in> {''0'', ''1''}" and sorted: "sorted_wrt (\<lambda>a b. nid a < nid b) plane"
  shows "\<exists>A B. arc_tokens lm rm p seen plane i = A @ B
           \<and> (\<forall>t \<in> set A. \<not> str_in (s_append_brk L2R p) t)
           \<and> (\<forall>t \<in> set B. \<not> str_in (s_peek_brk L2R p) t)"
  using sorted
proof (induction plane arbitrary: seen)
  case Nil
  then show ?case by simp
next
  case (Cons n plane)
  from Cons.prems have later: "\<forall>m \<in> set plane. nid n < nid m"
    and sorted': "sorted_wrt (\<lambda>a b. nid a < nid b) plane" by simp_all
  show ?case
  proof (cases "if nid n = 0 then None else head n")
    case None
    with Cons.IH[OF sorted', of seen] show ?thesis by simp
  next
    case (Some g)
    let ?rest = "arc_tokens lm rm p (insert (g, nid n < g) seen) plane i"
    let ?D = "if nid n = i then [dep_piece lm rm p n g] else []"
    let ?G = "if g = i \<and> (g, nid n < g) \<notin> seen then [gov_piece p n g] else []"
    have toks: "arc_tokens lm rm p seen (n # plane) i = ?D @ ?G @ ?rest" using Some by simp
    have D: "\<forall>t \<in> set ?D. \<not> str_in (s_append_brk L2R p) t"
      using dep_piece_app[OF p p] by simp
    have G: "\<forall>t \<in> set ?G. \<not> str_in (s_peek_brk L2R p) t"
      using gov_piece_peek[OF p p] by simp
    show ?thesis
    proof (cases "nid n < i")
      case True
      have G': "\<forall>t \<in> set ?G. \<not> str_in (s_append_brk L2R p) t"
        using True gov_piece_app(1)[OF p p, of L2R n g] by (auto simp: dmatch_def)
      from True have Dn: "?D = []" by simp
      from Cons.IH[OF sorted', of "insert (g, nid n < g) seen"] obtain A B where
        AB: "?rest = A @ B" and A: "\<forall>t \<in> set A. \<not> str_in (s_append_brk L2R p) t"
        and B: "\<forall>t \<in> set B. \<not> str_in (s_peek_brk L2R p) t" by blast
      have "arc_tokens lm rm p seen (n # plane) i = (?G @ A) @ B"
        unfolding toks Dn AB by simp
      moreover have "\<forall>t \<in> set (?G @ A). \<not> str_in (s_append_brk L2R p) t"
        using G' A by auto
      ultimately show ?thesis using B by blast
    next
      case False
      with later have "\<forall>m \<in> set plane. i < nid m" by auto
      from dep_nodes_later[OF this]
      have "filter (str_in (s_peek_brk L2R p)) ?rest = []"
        by (simp add: arc_tokens_peek[OF p])
      then have R: "\<forall>t \<in> set ?rest. \<not> str_in (s_peek_brk L2R p) t"
        by (simp add: filter_empty_conv)
      have "arc_tokens lm rm p seen (n # plane) i = ?D @ (?G @ ?rest)" unfolding toks ..
      moreover have "\<forall>t \<in> set (?G @ ?rest). \<not> str_in (s_peek_brk L2R p) t"
        using G R by auto
      ultimately show ?thesis using D by blast
    qed
  qed
qed

lemma filter_nid_unique:
  assumes sorted: "sorted_wrt (\<lambda>a b. nid a < nid b) plane" and sub: "set plane \<subseteq> set t"
    and ids: "map nid t = [0..<length t]"
  shows "filter (\<lambda>n. nid n = i) plane = (if i < length t \<and> t ! i \<in> set plane then [t ! i] else [])"
proof -
  have nth: "n = t ! nid n \<and> nid n < length t" if "n \<in> set t" for n
  proof -
    from that obtain k where k: "k < length t" "t ! k = n" by (auto simp: in_set_conv_nth)
    have "nid (t ! k) = map nid t ! k" using k by simp
    also have "\<dots> = k" using k by (simp add: ids)
    finally show ?thesis using k by simp
  qed
  have nidk: "nid (t ! k) = k" if "k < length t" for k
  proof -
    have "nid (t ! k) = map nid t ! k" using that by simp
    then show ?thesis using that by (simp add: ids)
  qed
  show ?thesis
    using sorted sub
  proof (induction plane)
    case Nil
    then show ?case by simp
  next
    case (Cons n plane)
    from Cons.prems have later: "\<forall>m \<in> set plane. nid n < nid m"
      and sorted': "sorted_wrt (\<lambda>a b. nid a < nid b) plane" and sub': "set plane \<subseteq> set t"
      and nt: "n \<in> set t" by simp_all
    note IH = Cons.IH[OF sorted' sub']
    from nth[OF nt] have n: "n = t ! nid n" "nid n < length t" by simp_all
    show ?case
    proof (cases "nid n = i")
      case True
      with later have "filter (\<lambda>m. nid m = i) plane = []" by (auto simp: filter_empty_conv)
      with True n show ?thesis by auto
    next
      case False
      have "t ! i \<noteq> n" if "i < length t" using nidk[OF that] False by auto
      with False IH show ?thesis by auto
    qed
  qed
qed

lemma concat_tokens_hd:
  assumes "\<forall>tok \<in> set toks. tok \<noteq> [] \<and> hd tok \<notin> {CHR ''0'', CHR ''1''}"
  shows "concat toks = [] \<or> hd (concat toks) \<notin> {CHR ''0'', CHR ''1''}"
  using assms by (cases toks) auto

lemma str_in_concat_tokens:
  assumes c: "c \<in> {CHR ''0'', CHR ''1''}"
    and toks: "\<forall>tok \<in> set toks. tok \<noteq> [] \<and> hd tok \<notin> {CHR ''0'', CHR ''1''}"
  shows "str_in [b, c] (concat toks) = (\<exists>tok \<in> set toks. str_in [b, c] tok)"
  using toks
proof (induction toks)
  case Nil
  then show ?case by simp
next
  case (Cons tok toks)
  then have IH: "str_in [b, c] (concat toks) = (\<exists>tok \<in> set toks. str_in [b, c] tok)"
    and rest: "\<forall>tok \<in> set toks. tok \<noteq> [] \<and> hd tok \<notin> {CHR ''0'', CHR ''1''}" by simp_all
  show ?case
  proof (cases "concat toks")
    case e: Nil
    have "str_in [b, c] (concat (tok # toks)) = str_in [b, c] tok" by (simp add: e)
    moreover have "\<not> str_in [b, c] (concat toks)" by (simp add: e)
    ultimately show ?thesis using IH by simp
  next
    case ne: (Cons x xs)
    from concat_tokens_hd[OF rest] ne have "x \<notin> {CHR ''0'', CHR ''1''}" by simp
    then have "x \<noteq> c" using c by auto
    from str_in_two_append[OF this, of b tok xs] IH ne show ?thesis by simp
  qed
qed

lemma arc_tokens_hd:
  assumes "p \<in> {''0'', ''1''}"
  shows "\<forall>tok \<in> set (arc_tokens lm rm p seen plane i). tok \<noteq> [] \<and> hd tok \<notin> {CHR ''0'', CHR ''1''}"
proof (induction plane arbitrary: seen)
  case Nil
  then show ?case by simp
next
  case (Cons n plane)
  show ?case
  proof (cases "if nid n = 0 then None else head n")
    case None
    with Cons.IH[of seen] show ?thesis by simp
  next
    case (Some g)
    have "dep_piece lm rm p n g \<noteq> []" "gov_piece p n g \<noteq> []"
      by (auto simp: dep_piece_def gov_piece_def)
    with Some Cons.IH[of "insert (g, nid n < g) seen"] piece_hd[OF assms]
    show ?thesis by auto
  qed
qed

lemma other_plane_unmarked:
  assumes p: "p \<in> {''0'', ''1''}" and q: "q \<in> {''0'', ''1''}" and qp: "q \<noteq> p"
  shows "\<not> str_in (bslash # q) (spec_fragment lm rm p seen plane i)"
    and "\<not> str_in (''/'' @ q) (spec_fragment lm rm p seen plane i)"
proof -
  from q obtain c where c: "q = [c]" "c \<in> {CHR ''0'', CHR ''1''}" by auto
  note hd = arc_tokens_hd[OF p, of lm rm seen plane i]
  from arc_tokens_other(2)[OF p q qp, of R2L lm rm seen plane i]
  have "\<forall>tok \<in> set (arc_tokens lm rm p seen plane i). \<not> str_in (bslash # q) tok"
    by (simp add: filter_empty_conv s_append_brk_def)
  then show "\<not> str_in (bslash # q) (spec_fragment lm rm p seen plane i)"
    unfolding concat_arc_tokens[symmetric] c using str_in_concat_tokens[OF c(2) hd, of bslash]
    by (simp add: c)
  from arc_tokens_other(2)[OF p q qp, of L2R lm rm seen plane i]
  have "\<forall>tok \<in> set (arc_tokens lm rm p seen plane i). \<not> str_in (''/'' @ q) tok"
    by (simp add: filter_empty_conv s_append_brk_def)
  then show "\<not> str_in (''/'' @ q) (spec_fragment lm rm p seen plane i)"
    unfolding concat_arc_tokens[symmetric] c using str_in_concat_tokens[OF c(2) hd, of "CHR ''/''"]
    by (simp add: c)
qed

text \<open>The label sequence \<^verbatim>\<open>encode\<close> returns.\<close>

lemma nid_nth:
  assumes "map nid t = [0..<length t]" "k < length t"
  shows "nid (t ! k) = k"
proof -
  have "nid (t ! k) = map nid t ! k" using assms(2) by simp
  then show ?thesis using assms by simp
qed

lemma nid_less:
  assumes "map nid t = [0..<length t]" "n \<in> set t"
  shows "nid n < length t"
  using assms nid_nth by (metis in_set_conv_nth)

lemma collect_labels:
  assumes "\<forall>n \<in> set t. nid n < length labels"
  shows "for_each (\<lambda>encoded_labels node.
                     if nid node < length labels
                     then Inr (encoded_labels @ [\<lparr>xi = labels ! nid node, li = relation node\<rparr>])
                     else Inl IndexError) t acc
       = Inr (acc @ map (\<lambda>n. \<lparr>xi = labels ! nid n, li = relation n\<rparr>) t)"
  using assms by (induction t arbitrary: acc) simp_all

lemma linearized_map:
  "linearized (map form t) (map upos t) (map feats t) (map f t)
     = map (\<lambda>n. \<lparr>word = form n, postag = upos n, features = feats n, label = f n\<rparr>) t"
  by (induction t) (simp_all add: linearized_def)

lemma encode_result:
  assumes ids: "map nid t = [0..<length t]"
    and heads: "\<forall>n \<in> set t. nid n \<noteq> 0 \<longrightarrow> (\<exists>h. head n = Some h \<and> h < length t)"
    and tp: "two_planar t = (p0, p1)"
    and sub0: "set p0 \<subseteq> set t" and sub1: "set p1 \<subseteq> set t"
  shows "encode two_planar t = Inr (map (encoded_row p0 p1) t)"
proof -
  let ?l0 = "replicate (length t + 1) ''''"
  let ?lm0 = "is_leftmost p0" and ?rm0 = "is_rightmost p0"
  let ?lm1 = "is_leftmost p1" and ?rm1 = "is_rightmost p1"
  have z: "''0'' \<in> {''0'', ''1''}" and o: "''1'' \<in> {''0'', ''1''}" by simp_all
  have ok: "\<forall>n \<in> set pl. nid n \<noteq> 0 \<longrightarrow>
      (\<exists>g. head n = Some g \<and> g < length labels \<and> nid n < length labels)"
    if "set pl \<subseteq> set t" "length labels = length t + 1" for pl and labels :: "string list"
  proof (intro ballI impI)
    fix n assume n: "n \<in> set pl" "nid n \<noteq> 0"
    with that(1) have nt: "n \<in> set t" by auto
    from heads nt n(2) obtain h where "head n = Some h" "h < length t" by blast
    with nid_less[OF ids nt] that(2)
    show "\<exists>g. head n = Some g \<and> g < length labels \<and> nid n < length labels" by simp
  qed
  from encoding_step_returns[OF ok[OF sub0], of ?l0 ?lm0 ?rm0 "brk_chars_of ''0''"]
  obtain l1 where l1: "for_each (encoding_node ?lm0 ?rm0 (brk_chars_of ''0'')) p0 ?l0 = Inr l1"
    by auto
  have m0: "marked ''0'' {} ?l0" by (simp add: marked_def del: replicate.simps)
  from encoding_step_fragments_aux[OF z l1 m0]
  have len1: "length l1 = length t + 1"
    and f1: "\<And>i. i < length t + 1 \<Longrightarrow> l1 ! i = spec_fragment ?lm0 ?rm0 ''0'' {} p0 i"
    by (simp_all del: replicate.simps)
  from encoding_step_returns[OF ok[OF sub1 len1], of ?lm1 ?rm1 "brk_chars_of ''1''"]
  obtain l2 where l2: "for_each (encoding_node ?lm1 ?rm1 (brk_chars_of ''1'')) p1 l1 = Inr l2"
    by auto
  have m1: "marked ''1'' {} l1"
    unfolding marked_def using other_plane_unmarked[OF z o, of ?lm0 ?rm0 "{}" p0] f1 len1
    by simp
  from encoding_step_fragments_aux[OF o l2 m1] len1 f1
  have len2: "length l2 = length t + 1"
    and f2: "\<And>i. i < length t + 1 \<Longrightarrow>
        l2 ! i = spec_fragment ?lm0 ?rm0 ''0'' {} p0 i @ spec_fragment ?lm1 ?rm1 ''1'' {} p1 i"
    by simp_all
  have inr: "\<forall>n \<in> set t. nid n < length l2"
    using nid_less[OF ids] len2 by fastforce
  have lab: "map (\<lambda>n. \<lparr>xi = l2 ! nid n, li = relation n\<rparr>) t
      = map (\<lambda>n. \<lparr>xi = concat (node_tokens p0 p1 (nid n)), li = relation n\<rparr>) t"
  proof (rule map_cong[OF refl])
    fix n assume "n \<in> set t"
    from nid_less[OF ids this] have "nid n < length t + 1" by simp
    from f2[OF this]
    show "\<lparr>xi = l2 ! nid n, li = relation n\<rparr>
        = \<lparr>xi = concat (node_tokens p0 p1 (nid n)), li = relation n\<rparr>"
      by (simp add: node_tokens_def concat_arc_tokens)
  qed
  show ?thesis
    unfolding encode_def tp
    using l1 l2 collect_labels[OF inr, of "[]"]
    by (simp add: encoding_step_def lab linearized_map encoded_row_def)
qed

text \<open>An encoded row, read by a pass, acts on the stack as \<open>row_act\<close> says.\<close>

lemma merge_brackets_concat:
  assumes "\<forall>t \<in> set ts. brk_token t"
  shows "merge_brackets (chars_of (concat ts)) = Inr ts"
proof -
  have "for_each merge_at
          [length ([]::string list)..<length ([]::string list) + length (concat ts)]
          ([] @ chars_of (concat ts)) = Inr ([] @ concat (map slots ts))"
    by (rule merge_tokens[OF assms])
  then show ?thesis
    by (simp add: merge_brackets_def chars_of_def filter_slots[OF assms])
qed

lemma zero_one: "''0'' \<in> {''0'', ''1''}" "''1'' \<in> {''0'', ''1''}"
  by simp_all

lemma node_tokens_brk: "\<forall>tok \<in> set (node_tokens p0 p1 i). brk_token tok"
  using arc_tokens_brk[OF zero_one(1)] arc_tokens_brk[OF zero_one(2)]
  by (auto simp: node_tokens_def)

lemma arc_tokens_start:
  assumes "p \<in> {''0'', ''1''}"
  shows "\<forall>tok \<in> set (arc_tokens lm rm p seen plane i).
           \<exists>c rest. tok = c # rest \<and> c \<in> {CHR ''<'', CHR ''>'', CHR ''/'', bslash}"
proof (induction plane arbitrary: seen)
  case Nil
  then show ?case by simp
next
  case (Cons n plane)
  show ?case
  proof (cases "if nid n = 0 then None else head n")
    case None
    with Cons.IH[of seen] show ?thesis by simp
  next
    case (Some g)
    have "\<exists>c rest. dep_piece lm rm p n g = c # rest \<and> c \<in> {CHR ''<'', CHR ''>'', CHR ''/'', bslash}"
      "\<exists>c rest. gov_piece p n g = c # rest \<and> c \<in> {CHR ''<'', CHR ''>'', CHR ''/'', bslash}"
      by (auto simp: dep_piece_def gov_piece_def)
    with Some Cons.IH[of "insert (g, nid n < g) seen"] show ?thesis by auto
  qed
qed

lemma concat_tokens_not_none: "concat (node_tokens p0 p1 i) \<noteq> D_NONE_LABEL"
proof (cases "node_tokens p0 p1 i")
  case Nil
  then show ?thesis by (simp add: D_NONE_LABEL_def)
next
  case (Cons tok rest)
  then have "tok \<in> set (node_tokens p0 p1 i)" by simp
  with arc_tokens_start[OF zero_one(1)] arc_tokens_start[OF zero_one(2)]
  obtain c r where "tok = c # r" "c \<in> {CHR ''<'', CHR ''>'', CHR ''/'', bslash}"
    unfolding node_tokens_def by (metis Un_iff set_append)
  with Cons show ?thesis by (auto simp: D_NONE_LABEL_def)
qed

lemma tokens_node_brks:
  "node_brks dir q \<lparr>xi = concat (node_tokens p0 p1 i), li = l\<rparr>
     = Inr (order_brks dir q (node_tokens p0 p1 i))"
  using concat_tokens_not_none[of p0 p1 i] merge_brackets_concat[OF node_tokens_brk, of p0 p1 i]
  by (simp add: node_brks_def label_brks_def)

lemma encoded_node_brks:
  "node_brks dir q (label (encoded_row p0 p1 n))
     = Inr (order_brks dir q (node_tokens p0 p1 (nid n)))"
  using tokens_node_brks[of dir q p0 p1 "nid n" "relation n"] by (simp add: encoded_row_def)

lemma planes_cases:
  assumes "q \<in> {''0'', ''1''}"
  obtains "q = ''0''" | "q = ''1''"
  using assms by auto

lemma node_tokens_peek:
  assumes q: "q \<in> {''0'', ''1''}"
  shows "filter (str_in (s_peek_brk dir q)) (node_tokens p0 p1 i)
       = map (dep_token (is_leftmost (plane_of q p0 p1)) (is_rightmost (plane_of q p0 p1)) q)
           (dep_nodes dir (plane_of q p0 p1) i)"
proof (cases rule: planes_cases[OF q])
  case 1
  have ne: "''0'' \<noteq> ''1''" by simp
  show ?thesis
    unfolding 1 node_tokens_def
    by (simp add: plane_of_def arc_tokens_peek[OF zero_one(1)]
        arc_tokens_other(1)[OF zero_one(2) zero_one(1) ne])
next
  case 2
  have ne: "''1'' \<noteq> ''0''" by simp
  show ?thesis
    unfolding 2 node_tokens_def
    by (simp add: plane_of_def arc_tokens_peek[OF zero_one(2)]
        arc_tokens_other(1)[OF zero_one(1) zero_one(2) ne])
qed

lemma node_tokens_app:
  assumes q: "q \<in> {''0'', ''1''}"
  shows "filter (str_in (s_append_brk dir q)) (node_tokens p0 p1 i)
       = (if governs (plane_of q p0 p1) i (dir = R2L) then [s_append_brk dir q] else [])"
proof (cases rule: planes_cases[OF q])
  case 1
  have ne: "''0'' \<noteq> ''1''" by simp
  show ?thesis
    unfolding 1 node_tokens_def
    by (simp add: plane_of_def arc_tokens_app[OF zero_one(1)]
        arc_tokens_other(2)[OF zero_one(2) zero_one(1) ne])
next
  case 2
  have ne: "''1'' \<noteq> ''0''" by simp
  show ?thesis
    unfolding 2 node_tokens_def
    by (simp add: plane_of_def arc_tokens_app[OF zero_one(2)]
        arc_tokens_other(2)[OF zero_one(1) zero_one(2) ne])
qed

lemma node_tokens_resolve_first:
  assumes q: "q \<in> {''0'', ''1''}"
    and s0: "sorted_wrt (\<lambda>a b. nid a < nid b) p0" and s1: "sorted_wrt (\<lambda>a b. nid a < nid b) p1"
  shows "resolve_first dir q (order_brks dir q (node_tokens p0 p1 i))"
proof (cases dir)
  case R2L
  show ?thesis
    unfolding R2L by (rule r2l_resolve_first[OF tokens_node_brks[of R2L q p0 p1 i "[]"]])
next
  case L2R
  let ?T0 = "arc_tokens (is_leftmost p0) (is_rightmost p0) ''0'' {} p0 i"
  let ?T1 = "arc_tokens (is_leftmost p1) (is_rightmost p1) ''1'' {} p1 i"
  have toks: "order_brks L2R q' (node_tokens p0 p1 i) = ?T0 @ ?T1" for q'
    by (simp add: order_brks_def node_tokens_def)
  show ?thesis
  proof (cases rule: planes_cases[OF q])
    case 1
    have ne: "''0'' \<noteq> ''1''" by simp
    from l2r_tokens_split[OF zero_one(1) s0, of "is_leftmost p0" "is_rightmost p0" "{}" i]
    obtain A B where AB: "?T0 = A @ B"
      and A: "\<forall>t \<in> set A. \<not> str_in (s_append_brk L2R ''0'') t"
      and B: "\<forall>t \<in> set B. \<not> str_in (s_peek_brk L2R ''0'') t" by blast
    from arc_tokens_other(1)[OF zero_one(2) zero_one(1) ne, of L2R "is_leftmost p1" "is_rightmost p1" "{}" p1 i]
    have T1: "\<forall>t \<in> set ?T1. \<not> str_in (s_peek_brk L2R ''0'') t" by (simp add: filter_empty_conv)
    have e: "?T0 @ ?T1 = A @ (B @ ?T1)" by (simp add: AB)
    have BT: "\<forall>t \<in> set (B @ ?T1). \<not> str_in (s_peek_brk L2R ''0'') t" using B T1 by auto
    show ?thesis
      unfolding L2R 1 toks by (rule split_resolve_first[OF e A BT])
  next
    case 2
    have ne: "''1'' \<noteq> ''0''" by simp
    from l2r_tokens_split[OF zero_one(2) s1, of "is_leftmost p1" "is_rightmost p1" "{}" i]
    obtain A B where AB: "?T1 = A @ B"
      and A: "\<forall>t \<in> set A. \<not> str_in (s_append_brk L2R ''1'') t"
      and B: "\<forall>t \<in> set B. \<not> str_in (s_peek_brk L2R ''1'') t" by blast
    from arc_tokens_other(2)[OF zero_one(1) zero_one(2) ne, of L2R "is_leftmost p0" "is_rightmost p0" "{}" p0 i]
    have T0: "\<forall>t \<in> set ?T0. \<not> str_in (s_append_brk L2R ''1'') t" by (simp add: filter_empty_conv)
    have e: "?T0 @ ?T1 = (?T0 @ A) @ B" by (simp add: AB)
    have TA: "\<forall>t \<in> set (?T0 @ A). \<not> str_in (s_append_brk L2R ''1'') t" using A T0 by auto
    show ?thesis
      unfolding L2R 2 toks by (rule split_resolve_first[OF e TA B])
  qed
qed

lemma dep_nodes_unique:
  assumes sorted: "sorted_wrt (\<lambda>a b. nid a < nid b) plane" and sub: "set plane \<subseteq> set t"
    and ids: "map nid t = [0..<length t]"
  shows "dep_nodes dir plane i = (if pass_arc dir plane t i = None then [] else [t ! i])"
proof -
  have "dep_nodes dir plane i
      = filter (\<lambda>n. nid n \<noteq> 0 \<and> (case head n of None \<Rightarrow> False | Some g \<Rightarrow> dmatch dir n g))
          (filter (\<lambda>n. nid n = i) plane)"
    by (auto simp: dep_nodes_def intro: filter_cong)
  also have "\<dots> = (if pass_arc dir plane t i = None then [] else [t ! i])"
    unfolding filter_nid_unique[OF sorted sub ids]
    using nid_nth[OF ids, of i]
    by (auto simp: pass_arc_def split: option.splits)
  finally show ?thesis .
qed

lemma sort_key_short: "length xs \<le> 1 \<Longrightarrow> sort_key f xs = xs"
  by (cases xs; cases "tl xs") auto

lemma order_brks_filter_short:
  assumes "length (filter P ts) \<le> 1"
  shows "filter P (order_brks dir q ts) = filter P ts"
  using assms by (simp add: order_brks_def filter_sort sort_key_short)

lemma order_brks_filter_length:
  "length (filter P (order_brks dir q ts)) = length (filter P ts)"
  by (simp add: order_brks_def filter_sort)

lemma encoded_row_heads:
  assumes q: "q \<in> {''0'', ''1''}"
    and ids: "map nid t = [0..<length t]"
    and s0: "sorted_wrt (\<lambda>a b. nid a < nid b) p0" and s1: "sorted_wrt (\<lambda>a b. nid a < nid b) p1"
    and sub0: "set p0 \<subseteq> set t" and sub1: "set p1 \<subseteq> set t"
    and i: "i < length t"
  shows "row_heads dir q (stack, m) (i, encoded_row p0 p1 (t ! i))
       = row_act (map_option (\<lambda>_. pass_star dir (plane_of q p0 p1) t i)
                    (pass_arc dir (plane_of q p0 p1) t i))
           (governs (plane_of q p0 p1) i (dir = R2L)) i (stack, m)"
proof -
  let ?pl = "plane_of q p0 p1"
  let ?toks = "node_tokens p0 p1 i"
  let ?ts = "order_brks dir q ?toks"
  let ?pk = "s_peek_brk dir q" and ?ap = "s_append_brk dir q"
  have sp: "sorted_wrt (\<lambda>a b. nid a < nid b) ?pl" and sub: "set ?pl \<subseteq> set t"
    using s0 s1 sub0 sub1 by (simp_all add: plane_of_def)
  have nb: "node_brks dir q (label (encoded_row p0 p1 (t ! i))) = Inr ?ts"
    using encoded_node_brks[of dir q p0 p1 "t ! i"] nid_nth[OF ids i] by simp
  note dn = dep_nodes_unique[OF sp sub ids, of dir i]
  have P: "filter (str_in ?pk) ?toks
      = (if pass_arc dir ?pl t i = None then []
         else [dep_token (is_leftmost ?pl) (is_rightmost ?pl) q (t ! i)])"
    unfolding node_tokens_peek[OF q] dn by simp
  then have "length (filter (str_in ?pk) ?toks) \<le> 1" by simp
  from order_brks_filter_short[OF this]
  have Pts: "filter (str_in ?pk) ?ts = filter (str_in ?pk) ?toks" .
  have Ats: "length (filter (str_in ?ap) ?ts) = (if governs ?pl i (dir = R2L) then 1 else 0)"
    unfolding order_brks_filter_length node_tokens_app[OF q] by simp
  note cf = ordered_fill_stack[OF node_tokens_resolve_first[OF q s0 s1, of dir i], of i stack]
  show ?thesis
  proof (cases "pass_arc dir ?pl t i")
    case None
    with P Pts have "filter (str_in ?pk) ?ts = []" by simp
    with cf Ats None show ?thesis
      by (simp add: nb row_act_def)
  next
    case (Some g)
    then have hd: "head (t ! i) = Some g" and dm: "dmatch dir (t ! i) g"
      by (auto simp: pass_arc_def split: if_splits option.splits)
    have tok: "dep_token (is_leftmost ?pl) (is_rightmost ?pl) q (t ! i)
        = dep_piece (is_leftmost ?pl) (is_rightmost ?pl) q (t ! i) g"
      by (simp add: dep_token_def hd)
    have star: "str_in ''*'' (dep_piece (is_leftmost ?pl) (is_rightmost ?pl) q (t ! i) g)
        = pass_star dir ?pl t i"
      using dm by (cases dir) (simp_all add: dep_piece_star[OF q] pass_star_def dmatch_def)
    from P Pts Some tok
    have F: "filter (str_in ?pk) ?ts = [dep_piece (is_leftmost ?pl) (is_rightmost ?pl) q (t ! i) g]"
      by simp
    show ?thesis
      using cf Ats Some
      by (cases stack) (simp_all add: nb row_act_def F star top0_def)
  qed
qed

text \<open>A pass over the encoded rows finds the arcs of its plane and direction.\<close>

lemma for_each_map: "for_each f (map h xs) s = for_each (\<lambda>s x. f s (h x)) xs s"
  by (induction xs arbitrary: s) (auto split: sum.splits)

lemma for_each_cong:
  assumes "\<And>x s. x \<in> set xs \<Longrightarrow> f s x = g s x"
  shows "for_each f xs s = for_each g xs s"
  using assms by (induction xs arbitrary: s) (auto split: sum.splits)

lemma node_at:
  assumes "map nid t = [0..<length t]" "n \<in> set t"
  shows "t ! nid n = n" "nid n < length t"
proof -
  from assms(2) obtain k where k: "k < length t" "t ! k = n" by (auto simp: in_set_conv_nth)
  from nid_nth[OF assms(1) k(1)] k show "t ! nid n = n" "nid n < length t" by auto
qed

lemma pass_rows:
  "iterrows dir (zip [0..<length lt] lt)
     = map (\<lambda>i. (i, lt ! i)) (if dir = L2R then [0..<length lt] else rev [0..<length lt])"
proof -
  have "zip [0..<length lt] lt = map (\<lambda>i. (i, lt ! i)) [0..<length lt]"
    by (rule nth_equalityI) simp_all
  then show ?thesis by (simp add: iterrows_def rev_map)
qed

lemma encoded_pass_heads:
  assumes q: "q \<in> {''0'', ''1''}"
    and ids: "map nid t = [0..<length t]"
    and wh: "well_headed t"
    and s0: "sorted_wrt (\<lambda>a b. nid a < nid b) p0" and s1: "sorted_wrt (\<lambda>a b. nid a < nid b) p1"
    and sub0: "set p0 \<subseteq> set t" and sub1: "set p1 \<subseteq> set t"
    and cf0: "crossing_free p0" and cf1: "crossing_free p1"
  shows "pass_heads (map (encoded_row p0 p1) t) q dir = Inr (pass_arc dir (plane_of q p0 p1) t)"
proof -
  let ?pl = "plane_of q p0 p1"
  let ?lt = "map (encoded_row p0 p1) t"
  let ?xs = "if dir = L2R then [0..<length t] else rev [0..<length t]"
  let ?prec = "\<lambda>a b :: nat. if dir = L2R then a < b else b < a"
  let ?gv = "pass_arc dir ?pl t"
  let ?star = "pass_star dir ?pl t"
  let ?gov = "\<lambda>i. governs ?pl i (dir = R2L)"
  have sub: "set ?pl \<subseteq> set t" and cf: "crossing_free ?pl"
    using sub0 sub1 cf0 cf1 by (simp_all add: plane_of_def)
  have xs: "set ?xs = {0..<length t}" by simp
  have arc: "d < length t \<and> d \<noteq> 0 \<and> t ! d \<in> set ?pl \<and> head (t ! d) = Some g
               \<and> dmatch dir (t ! d) g \<and> g < length t \<and> g \<noteq> d \<and> nid (t ! d) = d"
    if "?gv d = Some g" for d g
  proof -
    from that have 1: "d < length t" "d \<noteq> 0" "t ! d \<in> set ?pl" "head (t ! d) = Some g"
      "dmatch dir (t ! d) g"
      by (auto simp: pass_arc_def split: if_splits option.splits)
    from 1(1) have mem: "t ! d \<in> set t" by simp
    from 1(2) nid_nth[OF ids 1(1)] have "nid (t ! d) \<noteq> 0" by simp
    from wh[unfolded well_headed_def, rule_format, OF mem this] 1(4) nid_nth[OF ids 1(1)]
    have "g < length t \<and> g \<noteq> d" by (auto split: option.splits)
    with 1 nid_nth[OF ids 1(1)] show ?thesis by simp
  qed
  have arc_conv: "?gv (nid n) = Some g"
    if "n \<in> set ?pl" "nid n \<noteq> 0" "head n = Some g" "dmatch dir n g" for n g
  proof -
    from that(1) sub have "n \<in> set t" by auto
    from node_at[OF ids this] that show ?thesis by (simp add: pass_arc_def)
  qed
  have pr: "iterrows dir (zip [0..<length ?lt] ?lt) = map (\<lambda>i. (i, ?lt ! i)) ?xs"
    using pass_rows[of dir ?lt] by simp
  have rows: "for_each (row_heads dir q) (iterrows dir (zip [0..<length ?lt] ?lt)) ([], \<lambda>_. None)
      = for_each (\<lambda>st i. row_act (map_option (\<lambda>_. ?star i) (?gv i)) (?gov i) i st) ?xs
          ([], \<lambda>_. None)"
    unfolding pr for_each_map
  proof (rule for_each_cong)
    fix x :: nat and s :: "nat list \<times> (nat \<Rightarrow> nat option)"
    assume "x \<in> set (if dir = L2R then [0..<length t] else rev [0..<length t])"
    then have x: "x < length t" by (auto split: if_splits)
    obtain stack m where s: "s = (stack, m)" by (cases s)
    show "row_heads dir q s (x, ?lt ! x)
        = row_act (map_option (\<lambda>_. ?star x) (?gv x)) (?gov x) x s"
      unfolding s using encoded_row_heads[OF q ids s0 s1 sub0 sub1 x, of dir stack m] x by simp
  qed
  have scan: "for_each (\<lambda>st i. row_act (map_option (\<lambda>_. ?star i) (?gv i)) (?gov i) i st) ?xs
          ([], \<lambda>_. None)
      = Inr ([], \<lambda>i. if i \<in> set ?xs then ?gv i else None)"
  proof (rule scan_sorted[where prec = ?prec])
    show "sorted_wrt ?prec ?xs"
      by (cases dir) (simp_all add: sorted_wrt_rev)
  next
    fix a show "\<not> ?prec a a" by simp
  next
    fix a b c assume "?prec a b" "?prec b c" then show "?prec a c" by (auto split: if_splits)
  next
    fix d g assume "?gv d = Some g"
    from arc[OF this] show "?prec g d \<and> d \<in> set ?xs \<and> g \<in> set ?xs"
      by (cases dir) (auto simp: dmatch_def)
  next
    fix x g d' g'
    assume 1: "?gv x = Some g" and 2: "?gv d' = Some g'"
      and o: "?prec g g'" "?prec g' x" "?prec x d'"
    from arc[OF 1] arc[OF 2] have a: "arc_of (t ! x) = Some (x, g)" "arc_of (t ! d') = Some (d', g')"
      and m: "t ! x \<in> set ?pl" "t ! d' \<in> set ?pl"
      using nid_nth[OF ids] by (simp_all add: arc_of_def)
    from cf m a have "\<not> crosses (x, g) (d', g')"
      unfolding crossing_free_def by fastforce
    with o show False by (cases dir) (auto simp: crosses_def Let_def)
  next
    fix x g assume x: "x \<in> set ?xs" and g: "?gv x = Some g"
    from arc[OF g] have hx: "head (t ! x) = Some g" and xl: "x < length t" by simp_all
    show "?star x = (\<forall>d. ?gv d = Some g \<longrightarrow> \<not> ?prec x d)"
    proof
      assume st: "?star x"
      show "\<forall>d. ?gv d = Some g \<longrightarrow> \<not> ?prec x d"
      proof (intro allI impI)
        fix d assume d: "?gv d = Some g"
        from arc[OF d] have dd: "t ! d \<in> set ?pl" "nid (t ! d) \<noteq> 0" "head (t ! d) = Some g"
          "dmatch dir (t ! d) g" "nid (t ! d) = d"
          using nid_nth[OF ids] by simp_all
        show "\<not> ?prec x d"
        proof (cases dir)
          case L2R
          with st have "is_rightmost ?pl (t ! x)" by (simp add: pass_star_def)
          with dd hx L2R have "nid (t ! d) \<le> nid (t ! x)"
            unfolding is_rightmost_def right_arc_def dmatch_def by (auto split: option.splits)
          with dd(5) nid_nth[OF ids xl] L2R show ?thesis by simp
        next
          case R2L
          with st have "is_leftmost ?pl (t ! x)" by (simp add: pass_star_def)
          with dd hx R2L have "nid (t ! x) \<le> nid (t ! d)"
            unfolding is_leftmost_def left_arc_def dmatch_def by (auto split: option.splits)
          with dd(5) nid_nth[OF ids xl] R2L show ?thesis by simp
        qed
      qed
    next
      assume r: "\<forall>d. ?gv d = Some g \<longrightarrow> \<not> ?prec x d"
      show "?star x"
      proof (cases dir)
        case L2R
        have "nid n \<le> nid (t ! x)"
          if n: "n \<in> set ?pl" "nid n \<noteq> 0 \<and> head n = head (t ! x) \<and> right_arc n" for n
        proof -
          from n hx have "head n = Some g" "dmatch dir n g"
            by (auto simp: right_arc_def dmatch_def L2R)
          from arc_conv[OF n(1) _ this] n(2) have "?gv (nid n) = Some g" by simp
          with r L2R have "\<not> x < nid n" by auto
          with nid_nth[OF ids xl] show ?thesis by simp
        qed
        then show ?thesis by (auto simp: pass_star_def L2R is_rightmost_def)
      next
        case R2L
        have "nid (t ! x) \<le> nid n"
          if n: "n \<in> set ?pl" "nid n \<noteq> 0 \<and> head n = head (t ! x) \<and> left_arc n" for n
        proof -
          from n hx have "head n = Some g" "dmatch dir n g"
            by (auto simp: left_arc_def dmatch_def R2L)
          from arc_conv[OF n(1) _ this] n(2) have "?gv (nid n) = Some g" by simp
          with r R2L have "\<not> nid n < x" by auto
          with nid_nth[OF ids xl] show ?thesis by simp
        qed
        then show ?thesis by (auto simp: pass_star_def R2L is_leftmost_def)
      qed
    qed
  next
    fix x assume "x \<in> set ?xs"
    show "?gov x = (\<exists>d. ?gv d = Some x)"
    proof
      assume "?gov x"
      then obtain n where n: "n \<in> set ?pl" "nid n \<noteq> 0" "head n = Some x"
        "(nid n < x) = (dir = R2L)" by (auto simp: governs_def)
      from arc_conv[OF n(1,2,3)] n(4) show "\<exists>d. ?gv d = Some x" by (auto simp: dmatch_left)
    next
      assume "\<exists>d. ?gv d = Some x"
      then obtain d where d: "?gv d = Some x" ..
      from arc[OF d] nid_nth[OF ids, of d] show "?gov x"
        by (auto simp: governs_def dmatch_left intro!: bexI[of _ "t ! d"])
    qed
  qed
  have fin: "(\<lambda>i. if i \<in> set ?xs then ?gv i else None) = ?gv"
    by (auto simp: fun_eq_iff pass_arc_def)
  show ?thesis
    unfolding pass_heads_def rows scan fin by simp
qed

text \<open>The four passes together.\<close>

lemma apply_heads_nth:
  "i < length lt \<Longrightarrow> apply_heads lt m T ! i = set_node (lt ! i) (m i) (T ! i)"
  by (simp add: apply_heads_def)

lemma apply_heads_length: "length (apply_heads lt m T) = length lt"
  by (simp add: apply_heads_def)

lemma restored_node:
  assumes ids: "map nid t = [0..<length t]"
    and wh: "well_headed t"
    and part: "\<forall>n \<in> set t. nid n \<noteq> 0 \<longrightarrow> (n \<in> set p0) \<noteq> (n \<in> set p1)"
    and i: "i < length t"
  shows "set_node r (pass_arc R2L p1 t i)
           (set_node r (pass_arc L2R p1 t i)
             (set_node r (pass_arc R2L p0 t i)
               (set_node r (pass_arc L2R p0 t i) (empty_node i))))
         = \<lparr>nid = i, head = (if i = 0 then None else head (t ! i)),
             relation = li (label r), form = word r, upos = postag r, feats = []\<rparr>"
proof (cases "i = 0")
  case True
  then show ?thesis by (simp add: pass_arc_def set_node_def empty_node_def)
next
  case False
  from i have mem: "t ! i \<in> set t" by simp
  from False nid_nth[OF ids i] have nz: "nid (t ! i) \<noteq> 0" by simp
  from wh[unfolded well_headed_def, rule_format, OF mem nz]
  obtain h where h: "head (t ! i) = Some h" by (auto split: option.splits)
  from part[rule_format, OF mem nz] have "(t ! i \<in> set p0) \<noteq> (t ! i \<in> set p1)" .
  with h i False nid_nth[OF ids i] show ?thesis
    by (auto simp: pass_arc_def dmatch_def set_node_def empty_node_def)
qed

lemma decode_encoded_rows:
  assumes ids: "map nid t = [0..<length t]"
    and wh: "well_headed t"
    and tw: "two_planes t p0 p1"
  shows "decode (map (encoded_row p0 p1) t) = Inr (map restored t)"
proof -
  let ?lt = "map (encoded_row p0 p1) t"
  from tw have sub0: "set p0 \<subseteq> set t" and sub1: "set p1 \<subseteq> set t"
    and s0: "sorted_wrt (\<lambda>a b. nid a < nid b) p0" and s1: "sorted_wrt (\<lambda>a b. nid a < nid b) p1"
    and cf0: "crossing_free p0" and cf1: "crossing_free p1"
    and part: "\<forall>n \<in> set t. nid n \<noteq> 0 \<longrightarrow> (n \<in> set p0) \<noteq> (n \<in> set p1)"
    by (simp_all add: two_planes_def plane_view_def)
  have ph: "pass_heads ?lt q dir = Inr (pass_arc dir (plane_of q p0 p1) t)"
    if "q \<in> {''0'', ''1''}" for q dir
    by (rule encoded_pass_heads[OF that ids wh s0 s1 sub0 sub1 cf0 cf1])
  have noerr: "\<not> (\<exists>pd \<in> set fixed_passes. isl (pass_heads ?lt (fst pd) (snd pd)))"
    by (auto simp: fixed_passes_def ph)
  have ho: "heads_of ?lt (q, dir) = pass_arc dir (plane_of q p0 p1) t"
    if "q \<in> {''0'', ''1''}" for q dir
    by (simp add: heads_of_def ph[OF that])
  have len: "length (empty_tree (length ?lt)) = length ?lt" by (simp add: empty_tree_def)
  have dec: "decode ?lt =
      Inr (apply_heads ?lt (pass_arc R2L p1 t)
            (apply_heads ?lt (pass_arc L2R p1 t)
              (apply_heads ?lt (pass_arc R2L p0 t)
                (apply_heads ?lt (pass_arc L2R p0 t) (empty_tree (length ?lt))))))"
    unfolding decode_def run_passes_fold[OF len] using noerr
    by (simp add: fixed_passes_def ho plane_of_def)
  have "apply_heads ?lt (pass_arc R2L p1 t)
            (apply_heads ?lt (pass_arc L2R p1 t)
              (apply_heads ?lt (pass_arc R2L p0 t)
                (apply_heads ?lt (pass_arc L2R p0 t) (empty_tree (length ?lt)))))
        = map restored t"
  proof (rule nth_equalityI)
    show "length (apply_heads ?lt (pass_arc R2L p1 t)
            (apply_heads ?lt (pass_arc L2R p1 t)
              (apply_heads ?lt (pass_arc R2L p0 t)
                (apply_heads ?lt (pass_arc L2R p0 t) (empty_tree (length ?lt))))))
          = length (map restored t)"
      by (simp add: apply_heads_length)
  next
    fix i
    assume "i < length (apply_heads ?lt (pass_arc R2L p1 t)
            (apply_heads ?lt (pass_arc L2R p1 t)
              (apply_heads ?lt (pass_arc R2L p0 t)
                (apply_heads ?lt (pass_arc L2R p0 t) (empty_tree (length ?lt))))))"
    then have i: "i < length t" by (simp add: apply_heads_length)
    have ilt: "i < length ?lt" using i by simp
    have e: "empty_tree (length ?lt) ! i = empty_node i"
      using i by (simp add: empty_tree_def)
    have "apply_heads ?lt (pass_arc R2L p1 t)
            (apply_heads ?lt (pass_arc L2R p1 t)
              (apply_heads ?lt (pass_arc R2L p0 t)
                (apply_heads ?lt (pass_arc L2R p0 t) (empty_tree (length ?lt))))) ! i
        = \<lparr>nid = i, head = (if i = 0 then None else head (t ! i)),
             relation = li (label (?lt ! i)), form = word (?lt ! i), upos = postag (?lt ! i),
             feats = []\<rparr>"
      by (simp only: apply_heads_nth[OF ilt] e restored_node[OF ids wh part i])
    also have "\<dots> = map restored t ! i"
      using i nid_nth[OF ids i] by (simp add: restored_def encoded_row_def)
    finally show "apply_heads ?lt (pass_arc R2L p1 t)
            (apply_heads ?lt (pass_arc L2R p1 t)
              (apply_heads ?lt (pass_arc R2L p0 t)
                (apply_heads ?lt (pass_arc L2R p0 t) (empty_tree (length ?lt))))) ! i
          = map restored t ! i" .
  qed
  with dec show ?thesis by simp
qed

text \<open>
  C1, as stated: for every well-formed tree whose arcs can be split in two crossing-free
  planes, decoding the encoded tree reproduces the tree. The code needs more: \<^verbatim>\<open>decode\<close>
  numbers its nodes by position, from 0, so the tree must be stored with the virtual root
  as its first node. The tree with the nodes 1, 2, 3 and the heads 2, 0, 2, stored without
  that node, is well-headed and has all its arcs in plane 0 without a crossing; \<^verbatim>\<open>encode\<close> returns the three
  rows of the nodes 1, 2, 3 (the opening token of the arc into the root goes to slot 0 of
  the label list, for which no row is emitted), and \<^verbatim>\<open>decode\<close> of these rows does not
  return the tree.
\<close>

theorem rootless_tree_not_restored:
  "encode one_plane scenario_tree =
     Inr [label_row ''<0*'' ''nsubj'', label_row (CHR 0x5C # ''0>0*/0'') ''root'',
          label_row ''>0*'' ''obj'']
   \<and> decode [label_row ''<0*'' ''nsubj'', label_row (CHR 0x5C # ''0>0*/0'') ''root'',
          label_row ''>0*'' ''obj''] = Inl IndexError
   \<and> well_headed scenario_tree \<and> two_planes scenario_tree scenario_tree []"
  by code_simp

text \<open>
  C1, amended. For every tree stored with the virtual root as its first node (the ids are
  the positions 0, 1, 2, ...), in which every other node has a head among the ids of the
  tree and different from its own id, and whose arcs the partitioner splits in two
  crossing-free planes with no arc left out (every node but the root lies in exactly one
  plane, each plane lists its nodes in ascending order of ids), \<^verbatim>\<open>encode\<close> returns a label
  sequence and \<^verbatim>\<open>decode\<close> of that sequence returns the tree: one node per node of the tree,
  with the same id, head, relation, word and tag for every node other than the root; the
  root's node keeps its relation, word and tag and has its head unset, and the features
  come back empty.
\<close>

theorem encode_decode_round_trip:
  assumes ids: "map nid t = [0..<length t]"
    and wh: "well_headed t"
    and tp: "two_planar t = (p0, p1)"
    and tw: "two_planes t p0 p1"
  shows "\<exists>lt. encode two_planar t = Inr lt \<and> decode lt = Inr (map restored t)"
proof -
  from tw have sub0: "set p0 \<subseteq> set t" and sub1: "set p1 \<subseteq> set t"
    by (simp_all add: two_planes_def plane_view_def)
  from wh have heads: "\<forall>n \<in> set t. nid n \<noteq> 0 \<longrightarrow> (\<exists>h. head n = Some h \<and> h < length t)"
    by (auto simp: well_headed_def split: option.splits)
  have "encode two_planar t = Inr (map (encoded_row p0 p1) t)"
    using ids heads tp sub0 sub1 by (rule encode_result)
  with decode_encoded_rows[OF ids wh tw] show ?thesis by simp
qed

theorem encode_decode_round_trip_witness:
  "encode crossing_planes crossing_tree =
     Inr [label_row ''/0'' ''-'', label_row ''<0*'' ''a'', label_row ''<1*'' ''b'',
          label_row (CHR 0x5C # ''0>0*/0'') ''root'',
          label_row (''>0*'' @ [CHR 0x5C, CHR ''1'']) ''c'']
   \<and> decode [label_row ''/0'' ''-'', label_row ''<0*'' ''a'', label_row ''<1*'' ''b'',
          label_row (CHR 0x5C # ''0>0*/0'') ''root'',
          label_row (''>0*'' @ [CHR 0x5C, CHR ''1'']) ''c'']
     = Inr crossing_tree"
proof -
  let ?p0 = "[word_node 0 None ''-'', word_node 1 (Some 3) ''a'', word_node 3 (Some 0) ''root'',
       word_node 4 (Some 3) ''c'']"
  let ?p1 = "[word_node 2 (Some 4) ''b'']"
  have ids: "map nid crossing_tree = [0..<length crossing_tree]"
    by (simp add: crossing_tree_def word_node_def)
  have wh: "well_headed crossing_tree"
    by (simp add: well_headed_def crossing_tree_def word_node_def)
  have tp: "crossing_planes crossing_tree = (?p0, ?p1)"
    by (simp add: crossing_planes_def crossing_tree_def)
  have tw: "two_planes crossing_tree ?p0 ?p1"
    by (simp add: two_planes_def plane_view_def crossing_free_def arc_of_def crosses_def
        crossing_tree_def word_node_def)
  from encode_decode_round_trip[where two_planar = crossing_planes, OF ids wh tp tw]
  obtain lt where a: "encode crossing_planes crossing_tree = Inr lt"
    and b: "decode lt = Inr (map restored crossing_tree)" by blast
  have c: "map restored crossing_tree = crossing_tree"
    by (simp add: restored_def crossing_tree_def word_node_def)
  have d: "encode crossing_planes crossing_tree =
     Inr [label_row ''/0'' ''-'', label_row ''<0*'' ''a'', label_row ''<1*'' ''b'',
          label_row (CHR 0x5C # ''0>0*/0'') ''root'',
          label_row (''>0*'' @ [CHR 0x5C, CHR ''1'']) ''c'']"
    by code_simp
  from a b c d show ?thesis by simp
qed

end
